theory Spec2Isabelle
  imports Main "HOL-Library.Word"
begin

section \<open>Tokens, macros and the outcomes of the engine\<close>

text \<open>
  The macro expansion engine of lacc (the file with \<^verbatim>\<open>expand\<close>, \<^verbatim>\<open>expand_macro\<close>,
  \<^verbatim>\<open>define\<close> and \<^verbatim>\<open>definition\<close>) is embedded function by function. A token array is
  the list of its \<^verbatim>\<open>length\<close> live elements; the recycling pool of arrays only hands out
  logically empty arrays and is left out.

  Modelled from the spec: the headers \<^verbatim>\<open>tokenize.h\<close>, \<^verbatim>\<open>macro.h\<close>, \<^verbatim>\<open>strtab.h\<close> and
  \<^verbatim>\<open>hash.h\<close> are not among the sources, so the token kinds, the fields of
  \<^verbatim>\<open>struct token\<close> and \<^verbatim>\<open>struct macro\<close>, the table \<^verbatim>\<open>basic_token\<close>, \<^verbatim>\<open>str_cmp\<close>,
  \<^verbatim>\<open>type_equal\<close> and the hash table follow the data model of the specification:
  single-character punctuators are encoded by their byte, interned strings compare by
  content, and the table maps a name to the one macro stored under it.
\<close>

datatype token_type =
  END | IDENTIFIER | NUMBER | STRING | PREP_NUMBER | NEWLINE
  | PARAM | EMPTY_ARG | TOKEN_PASTE | PUNCT char

datatype type_kind = T_SIGNED | T_UNSIGNED

record number =
  ntype :: type_kind
  val :: "64 word"

text \<open>
  The payload \<^verbatim>\<open>d\<close> of a token is a union of a string and a number; both members are
  kept side by side, and every function reads the member its source reads.
\<close>

record token =
  token :: token_type
  leading_whitespace :: int
  d_string :: string
  d_number :: number

datatype macro_type = OBJECT_LIKE | FUNCTION_LIKE

record macro =
  name :: string
  type :: macro_type
  params :: nat
  replacement :: "token list"
  stringify :: bool
  is__file :: bool
  is__line :: bool

text \<open>
  Every \<^verbatim>\<open>error(...); exit(1)\<close> of the source is an error value, and so is a failed
  \<^verbatim>\<open>assert\<close>. An access to an array element at or beyond the array's length (or through
  the null argument vector of an object-like macro) has no defined result in C; the model
  stops there with \<open>Out_of_bounds\<close>, and with \<open>Signed_overflow\<close> where an \<^verbatim>\<open>int\<close>
  counter would leave its range.
\<close>

datatype error =
  Redefinition
  | Paste_at_beginning
  | Paste_at_end
  | Invalid_paste
  | Unexpected_token
  | Unexpected_end_of_input
  | Negative_nesting
  | Assertion_failed
  | Out_of_bounds
  | Signed_overflow

text \<open>
  The collaborators the engine calls: the lexer's current file and line, the tokenizer
  (which returns the token it read and the input it left unread), the spelling of a token,
  and whether the build defines \<^verbatim>\<open>NDEBUG\<close> (which removes every \<^verbatim>\<open>assert\<close>).
\<close>

record env =
  current_file_path :: string
  current_file_line :: int
  tokenize :: "string \<Rightarrow> token \<times> string"
  tokstr :: "token \<Rightarrow> string"
  ndebug :: bool

text \<open>
  Modelled from the spec: the table \<^verbatim>\<open>basic_token\<close> of the tokenizer is missing;
  \<open>basic_token k\<close> is the token of kind \<open>k\<close> with no leading whitespace and an
  empty payload. \<^verbatim>\<open>str_cmp\<close> of the string interner and \<^verbatim>\<open>type_equal\<close> of the
  number model are missing too: interned strings are equal when their bytes are, and
  numeric types are equal when they are the same type.
\<close>

definition basic_token :: "token_type \<Rightarrow> token" where
  "basic_token k =
     \<lparr>token = k, leading_whitespace = 0, d_string = [],
      d_number = \<lparr>ntype = T_SIGNED, val = 0\<rparr>\<rparr>"

definition str_cmp :: "string \<Rightarrow> string \<Rightarrow> int" where
  "str_cmp a b = (if a = b then 0 else 1)"

definition type_equal :: "type_kind \<Rightarrow> type_kind \<Rightarrow> bool" where
  "type_equal a b = (a = b)"

section \<open>Comparison utilities\<close>

definition tok_cmp :: "token \<Rightarrow> token \<Rightarrow> int" where
  "tok_cmp a b =
     (if token a \<noteq> token b then 1
      else if token a = PARAM then
        (if sint (val (d_number a)) \<noteq> sint (val (d_number b)) then 1 else 0)
      else if token a = NUMBER then
        (if \<not> type_equal (ntype (d_number a)) (ntype (d_number b)) then 1
         else if ntype (d_number a) = T_UNSIGNED then
           (if uint (val (d_number a)) \<noteq> uint (val (d_number b)) then 1 else 0)
         else
           (if sint (val (d_number a)) \<noteq> sint (val (d_number b)) then 1 else 0))
      else str_cmp (d_string a) (d_string b))"

fun macrocmp_loop :: "token list \<Rightarrow> token list \<Rightarrow> int" where
  "macrocmp_loop (x # xs) (y # ys) =
     (if tok_cmp x y \<noteq> 0 then 1 else macrocmp_loop xs ys)"
| "macrocmp_loop xs ys = 0"

definition macrocmp :: "macro \<Rightarrow> macro \<Rightarrow> int" where
  "macrocmp a b =
     (if type a \<noteq> type b then 1
      else if params a \<noteq> params b then 1
      else if str_cmp (name a) (name b) \<noteq> 0 then 1
      else if length (replacement a) \<noteq> length (replacement b) then 1
      else macrocmp_loop (replacement a) (replacement b))"

section \<open>The macro table\<close>

text \<open>
  Modelled from the spec: \<^verbatim>\<open>hash_lookup\<close>, \<^verbatim>\<open>hash_insert\<close> and \<^verbatim>\<open>hash_remove\<close>
  of \<^verbatim>\<open>lacc/hash.h\<close> are missing. The table holds the stored macros; the key of an
  entry is its name (\<^verbatim>\<open>macro_hash_key\<close>), a lookup returns the entry stored under the
  name, an insert adds a copy of its argument (\<^verbatim>\<open>macro_hash_add\<close>) unless the name is
  taken, and a removal deletes the entry of that name.
\<close>

type_synonym hash_table = "macro list"

definition hash_lookup :: "hash_table \<Rightarrow> string \<Rightarrow> macro option" where
  "hash_lookup tab n = find (\<lambda>m. name m = n) tab"

text \<open>
  \<open>hash_insert\<close> returns the table, the stored entry and whether a new entry was added:
  an entry already stored under the name is returned as it is and the argument is dropped.
\<close>

definition hash_insert :: "hash_table \<Rightarrow> macro \<Rightarrow> hash_table \<times> macro \<times> bool" where
  "hash_insert tab m =
     (case hash_lookup tab (name m) of
        Some r \<Rightarrow> (tab, r, False)
      | None \<Rightarrow> (tab @ [m], m, True))"

text \<open>A write through the pointer to a stored entry replaces that entry in the table.\<close>

fun hash_store :: "hash_table \<Rightarrow> macro \<Rightarrow> hash_table" where
  "hash_store [] r = []"
| "hash_store (m # tab) r = (if name m = name r then r # tab else m # hash_store tab r)"

fun hash_remove :: "hash_table \<Rightarrow> string \<Rightarrow> hash_table" where
  "hash_remove [] n = []"
| "hash_remove (m # tab) n = (if name m = n then tab else m # hash_remove tab n)"

fun has_stringify_loop :: "token list \<Rightarrow> bool" where
  "has_stringify_loop (a # b # ts) =
     (if token a = PUNCT (CHR ''#'') \<and> token b = PARAM then True
      else has_stringify_loop (b # ts))"
| "has_stringify_loop ts = False"

definition has_stringify_replacement :: "macro \<Rightarrow> bool" where
  "has_stringify_replacement def =
     (if length (replacement def) > 1 then has_stringify_loop (replacement def) else False)"

definition define_macro :: "hash_table \<Rightarrow> macro \<Rightarrow> error + hash_table" where
  "define_macro tab macro =
     (case hash_insert tab macro of
        (tab1, ref, new_macro_added) \<Rightarrow>
          if macrocmp ref macro \<noteq> 0 then Inl Redefinition
          else Inr (hash_store tab1
                 (ref\<lparr>stringify := has_stringify_replacement ref,
                      is__file := (str_cmp ''__FILE__'' (name ref) = 0),
                      is__line := (str_cmp ''__LINE__'' (name ref) = 0)\<rparr>)))"

definition undef :: "hash_table \<Rightarrow> string \<Rightarrow> hash_table" where
  "undef tab n = hash_remove tab n"

section \<open>Lookup with the dynamic builtins\<close>

function decimal_nat :: "nat \<Rightarrow> string" where
  "decimal_nat n =
     (if n < 10 then [char_of (48 + n)]
      else decimal_nat (n div 10) @ [char_of (48 + n mod 10)])"
  by pat_completeness auto
termination
  by (relation "measure (\<lambda>n. n)") auto

declare decimal_nat.simps [simp del]

definition snprintf_d :: "int \<Rightarrow> string" where
  "snprintf_d i = (if i < 0 then CHR ''-'' # decimal_nat (nat (- i)) else decimal_nat (nat i))"

definition get__line__token :: "env \<Rightarrow> token" where
  "get__line__token e = (basic_token PREP_NUMBER)\<lparr>d_string := snprintf_d (current_file_line e)\<rparr>"

definition get__file__token :: "env \<Rightarrow> token" where
  "get__file__token e =
     \<lparr>token = STRING, leading_whitespace = 0, d_string = current_file_path e,
      d_number = \<lparr>ntype = T_SIGNED, val = 0\<rparr>\<rparr>"

text \<open>
  \<open>definition_lookup\<close> is \<^verbatim>\<open>definition\<close> of the source. It returns the table after the
  write to slot 0 and the entry found. The write goes to \<^verbatim>\<open>replacement.data[0]\<close> without
  looking at the length, so a flagged macro with an empty replacement is an access out of
  bounds.
\<close>

definition definition_lookup ::
  "env \<Rightarrow> hash_table \<Rightarrow> string \<Rightarrow> error + (hash_table \<times> macro option)" where
  "definition_lookup e tab n =
     (case hash_lookup tab n of
        None \<Rightarrow> Inr (tab, None)
      | Some ref \<Rightarrow>
          if is__file ref then
            (if replacement ref = [] then Inl Out_of_bounds
             else
               let ref' = ref\<lparr>replacement := (replacement ref)[0 := get__file__token e]\<rparr>
               in Inr (hash_store tab ref', Some ref'))
          else if is__line ref then
            (if replacement ref = [] then Inl Out_of_bounds
             else
               let ref' = ref\<lparr>replacement := (replacement ref)[0 := get__line__token e]\<rparr>
               in Inr (hash_store tab ref', Some ref'))
          else Inr (tab, Some ref))"

section \<open>Token pasting\<close>

definition paste :: "env \<Rightarrow> token \<Rightarrow> token \<Rightarrow> error + token" where
  "paste e left right =
     (if token left = EMPTY_ARG \<and> token right = EMPTY_ARG \<and> \<not> ndebug e
      then Inl Assertion_failed
      else if token left = EMPTY_ARG then Inr right
      else if token right = EMPTY_ARG then Inr left
      else
        (case tokenize e (tokstr e left @ tokstr e right) of
           (res, unread) \<Rightarrow>
             if unread \<noteq> [] then Inl Invalid_paste
             else Inr (res\<lparr>leading_whitespace := leading_whitespace left\<rparr>)))"

text \<open>
  The loop of \<^verbatim>\<open>expand_paste_operators\<close>. The write cursor \<^verbatim>\<open>i\<close> is an \<^verbatim>\<open>unsigned\<close>
  that the source decrements at 0, so it is a 32-bit word. The read cursor \<^verbatim>\<open>j\<close> only
  grows and stays at most \<^verbatim>\<open>len\<close>, the length of the array, so it is a natural number.
  The function returns the array and the final \<^verbatim>\<open>i\<close>.
\<close>

function paste_loop ::
  "env \<Rightarrow> token list \<Rightarrow> 32 word \<Rightarrow> nat \<Rightarrow> error + (token list \<times> 32 word)" where
  "paste_loop e list i j =
     (if j < length list then
        if \<not> unat i < length list \<and> \<not> ndebug e then Inl Assertion_failed
        else if token (list ! j) = TOKEN_PASTE then
          (if \<not> unat i < length list then Inl Out_of_bounds
           else if \<not> j + 1 < length list then Inl Out_of_bounds
           else if token (list ! unat i) = EMPTY_ARG \<and> token (list ! (j + 1)) = EMPTY_ARG
           then paste_loop e list (i - 1) (j + 1 + 1)
           else
             (case paste e (list ! unat i) (list ! (j + 1)) of
                Inl err \<Rightarrow> Inl err
              | Inr p \<Rightarrow> paste_loop e (list[unat i := p]) i (j + 1 + 1)))
        else if token (list ! j) \<noteq> EMPTY_ARG then
          (if unat i < j - 1
           then paste_loop e (list[unat (i + 1) := list ! j]) (i + 1) (j + 1)
           else paste_loop e list (i + 1) (j + 1))
        else paste_loop e list i (j + 1)
      else Inr (list, i))"
  by pat_completeness auto
termination
  by (relation "measure (\<lambda>(e, list, i, j). length list - j)") auto

declare paste_loop.simps [simp del]

definition expand_paste_operators :: "env \<Rightarrow> token list \<Rightarrow> error + token list" where
  "expand_paste_operators e list =
     (if length list \<noteq> 0 \<and> token (list ! 0) = TOKEN_PASTE then Inl Paste_at_beginning
      else if length list > 2 then
        (if token (list ! (length list - 1)) = TOKEN_PASTE then Inl Paste_at_end
         else
           (case paste_loop e list 0 1 of
              Inl err \<Rightarrow> Inl err
            | Inr (list', i) \<Rightarrow> Inr (take (unat (i + 1)) list')))
      else Inr list)"

section \<open>Reading arguments\<close>

text \<open>
  The readers walk a pointer through the array; the model passes the tokens from the
  pointer to the end of the array and returns the tokens from the new pointer on. Reading
  the token under a pointer that has reached the end is out of bounds.
\<close>

definition skip :: "token list \<Rightarrow> token_type \<Rightarrow> error + token list" where
  "skip list tk =
     (case list of
        [] \<Rightarrow> Inl Out_of_bounds
      | t # rest \<Rightarrow> if token t \<noteq> tk then Inl Unexpected_token else Inr rest)"

definition INT_MAX :: int where
  "INT_MAX = 2147483647"

fun read_arg_loop ::
  "int \<Rightarrow> token list \<Rightarrow> token list \<Rightarrow> error + (token list \<times> token list)" where
  "read_arg_loop nesting arg [] = Inl Out_of_bounds"
| "read_arg_loop nesting arg (t # list) =
     (if (if nesting \<noteq> 0 then True
          else token t \<noteq> PUNCT (CHR '','') \<and> token t \<noteq> PUNCT (CHR '')''))
      then
        if token t = NEWLINE then Inl Unexpected_end_of_input
        else if token t = PUNCT (CHR ''('') then
          (if nesting = INT_MAX then Inl Signed_overflow
           else read_arg_loop (nesting + 1) (arg @ [t]) list)
        else if token t = PUNCT (CHR '')'') then
          (if nesting - 1 < 0 then Inl Negative_nesting
           else read_arg_loop (nesting - 1) (arg @ [t]) list)
        else read_arg_loop nesting (arg @ [t]) list
      else Inr (if length arg = 0 then [basic_token EMPTY_ARG] else arg, t # list))"

definition read_arg :: "token list \<Rightarrow> error + (token list \<times> token list)" where
  "read_arg list = read_arg_loop 0 [] list"

text \<open>
  \<open>read_args_loop k\<close> reads the last \<open>k\<close> of the \<^verbatim>\<open>params\<close> arguments: a comma is
  skipped after every argument but the last one.
\<close>

fun read_args_loop :: "nat \<Rightarrow> token list \<Rightarrow> error + (token list list \<times> token list)" where
  "read_args_loop 0 list = Inr ([], list)"
| "read_args_loop (Suc k) list =
     (case read_arg list of
        Inl err \<Rightarrow> Inl err
      | Inr (arg, list1) \<Rightarrow>
          (case (if k \<noteq> 0 then skip list1 (PUNCT (CHR '','')) else Inr list1) of
             Inl err \<Rightarrow> Inl err
           | Inr list2 \<Rightarrow>
               (case read_args_loop k list2 of
                  Inl err \<Rightarrow> Inl err
                | Inr (args, list3) \<Rightarrow> Inr (arg # args, list3))))"

text \<open>For an object-like macro the argument vector is the null pointer, here \<open>[]\<close>.\<close>

definition read_args :: "macro \<Rightarrow> token list \<Rightarrow> error + (token list list \<times> token list)" where
  "read_args def list =
     (if type def = FUNCTION_LIKE then
        (case skip list (PUNCT (CHR ''('')) of
           Inl err \<Rightarrow> Inl err
         | Inr list1 \<Rightarrow>
             (case read_args_loop (params def) list1 of
                Inl err \<Rightarrow> Inl err
              | Inr (args, list2) \<Rightarrow>
                  (case skip list2 (PUNCT (CHR '')'')) of
                     Inl err \<Rightarrow> Inl err
                   | Inr list3 \<Rightarrow> Inr (args, list3))))
      else Inr ([], list))"

section \<open>Stringification\<close>

fun stringify_loop :: "env \<Rightarrow> nat \<Rightarrow> token list \<Rightarrow> string \<Rightarrow> error + string" where
  "stringify_loop e i [] buf = Inr buf"
| "stringify_loop e i (tok # list) buf =
     (if token tok = END \<and> \<not> ndebug e then Inl Assertion_failed
      else if token tok = NEWLINE then
        (if list \<noteq> [] \<and> \<not> ndebug e then Inl Assertion_failed else Inr buf)
      else
        stringify_loop e (i + 1) list
          (buf @ (if leading_whitespace tok \<noteq> 0 \<and> i \<noteq> 0 then '' '' else []) @ tokstr e tok))"

definition string_token :: "string \<Rightarrow> token" where
  "string_token s =
     \<lparr>token = STRING, leading_whitespace = 0, d_string = s,
      d_number = \<lparr>ntype = T_SIGNED, val = 0\<rparr>\<rparr>"

definition stringify_list :: "env \<Rightarrow> token list \<Rightarrow> error + token" where
  "stringify_list e list =
     (case list of
        [] \<Rightarrow> Inr (string_token [])
      | tok # rest \<Rightarrow>
          if token tok = EMPTY_ARG then Inr (string_token [])
          else if length list = 1 then Inr (string_token (tokstr e tok))
          else
            (case stringify_loop e 0 list [] of
               Inl err \<Rightarrow> Inl err
             | Inr buf \<Rightarrow> Inr (string_token buf)))"

fun stringify_args :: "env \<Rightarrow> token list list \<Rightarrow> error + token list" where
  "stringify_args e [] = Inr []"
| "stringify_args e (a # args) =
     (case stringify_list e a of
        Inl err \<Rightarrow> Inl err
      | Inr t \<Rightarrow>
          (case stringify_args e args of
             Inl err \<Rightarrow> Inl err
           | Inr strings \<Rightarrow> Inr (t # strings)))"

section \<open>Substitution and rescanning\<close>

fun is_macro_expanded :: "string list \<Rightarrow> macro \<Rightarrow> bool" where
  "is_macro_expanded [] macro = False"
| "is_macro_expanded (n # expand_stack) macro =
     (if str_cmp n (name macro) = 0 then True else is_macro_expanded expand_stack macro)"

definition param_index :: "token \<Rightarrow> int" where
  "param_index t = sint (ucast (val (d_number t)) :: 32 word)"

text \<open>
  The loop of \<^verbatim>\<open>expand_macro\<close> over the replacement list. \<open>strings\<close> holds the
  stringified arguments and \<open>args\<close> the pre-expanded ones. The index read from a
  \<^verbatim>\<open>PARAM\<close> token is an \<^verbatim>\<open>int\<close> compared with an unsigned count, so a negative index
  fails the comparison.
\<close>

fun substitute ::
  "env \<Rightarrow> macro \<Rightarrow> token list \<Rightarrow> token list list \<Rightarrow> token list \<Rightarrow> error + token list" where
  "substitute e def strings args [] = Inr []"
| "substitute e def strings args (t # ts) =
     (if token t = PARAM then
        (if \<not> (0 \<le> param_index t \<and> param_index t < int (params def)) \<and> \<not> ndebug e
         then Inl Assertion_failed
         else if \<not> (0 \<le> param_index t \<and> nat (param_index t) < length args)
         then Inl Out_of_bounds
         else
           (case substitute e def strings args ts of
              Inl err \<Rightarrow> Inl err
            | Inr list \<Rightarrow> Inr (args ! nat (param_index t) @ list)))
      else if token t = PUNCT (CHR ''#'') \<and> ts \<noteq> [] \<and> token (hd ts) = PARAM then
        (if \<not> (0 \<le> param_index (hd ts) \<and> nat (param_index (hd ts)) < length strings)
         then (if ndebug e then Inl Out_of_bounds else Inl Assertion_failed)
         else if token (strings ! nat (param_index (hd ts))) \<noteq> STRING \<and> \<not> ndebug e
         then Inl Assertion_failed
         else
           (case substitute e def strings args (tl ts) of
              Inl err \<Rightarrow> Inl err
            | Inr list \<Rightarrow> Inr (strings ! nat (param_index (hd ts)) # list)))
      else
        (case substitute e def strings args ts of
           Inl err \<Rightarrow> Inl err
         | Inr list \<Rightarrow> Inr (t # list)))"

definition array_replace_slice ::
  "env \<Rightarrow> token list \<Rightarrow> nat \<Rightarrow> nat \<Rightarrow> token list \<Rightarrow> error + token list" where
  "array_replace_slice e list start gaplength expn =
     (if \<not> start + gaplength \<le> length list
      then (if ndebug e then Inl Out_of_bounds else Inl Assertion_failed)
      else Inr (take start list @ expn @ drop (start + gaplength) list))"

definition set_leading_whitespace :: "int \<Rightarrow> token list \<Rightarrow> token list" where
  "set_leading_whitespace w list = list[0 := (list ! 0)\<lparr>leading_whitespace := w\<rparr>]"

text \<open>
  \<^verbatim>\<open>expand\<close> and \<^verbatim>\<open>expand_macro\<close> call each other, and nothing in their text bounds the
  recursion, so the model counts fuel: \<open>expand_loop n\<close> is the \<^verbatim>\<open>while\<close> loop of
  \<^verbatim>\<open>expand\<close> with fuel \<open>n\<close>, every turn of the loop costs one unit, a nested call of
  \<^verbatim>\<open>expand\<close> runs on what is left, and \<open>None\<close> means that the fuel ran out. The value is
  the error that stopped the run, or the macro table and the array as the call leaves
  them. The stack \<^verbatim>\<open>expand_stack\<close> is pushed before and popped after the body of
  \<^verbatim>\<open>expand_macro\<close>, so it is an argument.

  The pieces of the recursion take the loop with the remaining fuel as their first
  argument \<open>rec\<close>; \<open>rec tab stack list 0\<close> is a nested call \<^verbatim>\<open>expand(&list)\<close>.

  \<^item> \<open>expand_args\<close> is the loop of \<^verbatim>\<open>expand_macro\<close> that expands each argument and
    then writes \<^verbatim>\<open>args[i].data[0].leading_whitespace\<close>;
  \<^item> \<open>expand_macro\<close> reads \<^verbatim>\<open>def\<close> as \<^verbatim>\<open>definition\<close> returned it: the only writes
    to the table during the call store the same file or line token again;
  \<^item> \<open>expand_one\<close> is the block of \<^verbatim>\<open>expand\<close> that replaces one invocation, and
    returns the table, the array and the index at which the loop goes on;
  \<^item> \<open>expand_body\<close> is one turn of the loop at index \<open>i\<close>.
\<close>

type_synonym expander =
  "hash_table \<Rightarrow> string list \<Rightarrow> token list \<Rightarrow> nat \<Rightarrow> (error + hash_table \<times> token list) option"

fun expand_args ::
  "expander \<Rightarrow> hash_table \<Rightarrow> string list \<Rightarrow> token list list
     \<Rightarrow> (error + hash_table \<times> token list list) option" where
  "expand_args rec tab expand_stack [] = Some (Inr (tab, []))"
| "expand_args rec tab expand_stack (a # args) =
     (case rec tab expand_stack a 0 of
        None \<Rightarrow> None
      | Some (Inl err) \<Rightarrow> Some (Inl err)
      | Some (Inr (tab1, a1)) \<Rightarrow>
          if length a1 = 0 then Some (Inl Out_of_bounds)
          else
            (case expand_args rec tab1 expand_stack args of
               None \<Rightarrow> None
             | Some (Inl err) \<Rightarrow> Some (Inl err)
             | Some (Inr (tab2, args1)) \<Rightarrow>
                 Some (Inr (tab2,
                   (if leading_whitespace (a1 ! 0) = 0 then set_leading_whitespace 1 a1
                    else a1) # args1))))"

definition expand_macro ::
  "expander \<Rightarrow> env \<Rightarrow> hash_table \<Rightarrow> string list \<Rightarrow> macro \<Rightarrow> token list list
     \<Rightarrow> (error + hash_table \<times> token list) option" where
  "expand_macro rec e tab expand_stack def args =
     (case
        (if params def \<noteq> 0 then
           (if length args < params def then Some (Inl Out_of_bounds)
            else
              (case (if stringify def then stringify_args e (take (params def) args)
                     else Inr []) of
                 Inl err \<Rightarrow> Some (Inl err)
               | Inr strings \<Rightarrow>
                   (case expand_args rec tab (expand_stack @ [name def])
                           (take (params def) args) of
                      None \<Rightarrow> None
                    | Some (Inl err) \<Rightarrow> Some (Inl err)
                    | Some (Inr (tab1, args1)) \<Rightarrow> Some (Inr (tab1, strings, args1)))))
         else Some (Inr (tab, [], args)))
      of
        None \<Rightarrow> None
      | Some (Inl err) \<Rightarrow> Some (Inl err)
      | Some (Inr (tab1, strings, args1)) \<Rightarrow>
          (case substitute e def strings args1 (replacement def) of
             Inl err \<Rightarrow> Some (Inl err)
           | Inr list \<Rightarrow>
               (case expand_paste_operators e list of
                  Inl err \<Rightarrow> Some (Inl err)
                | Inr list1 \<Rightarrow> rec tab1 (expand_stack @ [name def]) list1 0)))"

definition expand_one ::
  "expander \<Rightarrow> env \<Rightarrow> hash_table \<Rightarrow> string list \<Rightarrow> token list \<Rightarrow> nat \<Rightarrow> macro
     \<Rightarrow> (error + hash_table \<times> token list \<times> nat) option" where
  "expand_one rec e tab expand_stack list i def =
     (case read_args def (drop (i + 1) list) of
        Inl err \<Rightarrow> Some (Inl err)
      | Inr (args, endptr) \<Rightarrow>
          (case expand_macro rec e tab expand_stack def args of
             None \<Rightarrow> None
           | Some (Inl err) \<Rightarrow> Some (Inl err)
           | Some (Inr (tab', expn)) \<Rightarrow>
               (case array_replace_slice e list i (length list - length endptr - i)
                       (if length expn \<noteq> 0
                        then set_leading_whitespace (leading_whitespace (list ! i)) expn
                        else expn) of
                  Inl err \<Rightarrow> Some (Inl err)
                | Inr list' \<Rightarrow> Some (Inr (tab', list', i + length expn)))))"

definition expand_body ::
  "expander \<Rightarrow> env \<Rightarrow> hash_table \<Rightarrow> string list \<Rightarrow> token list \<Rightarrow> nat
     \<Rightarrow> (error + hash_table \<times> token list) option" where
  "expand_body rec e tab expand_stack list i =
     (if i < length list then
        if token (list ! i) = IDENTIFIER then
          (case definition_lookup e tab (d_string (list ! i)) of
             Inl err \<Rightarrow> Some (Inl err)
           | Inr (tab1, None) \<Rightarrow> rec tab1 expand_stack list (i + 1)
           | Inr (tab1, Some def) \<Rightarrow>
               if is_macro_expanded expand_stack def
               then rec tab1 expand_stack list (i + 1)
               else if type def = FUNCTION_LIKE \<and> \<not> i + 1 < length list
               then Some (Inl Out_of_bounds)
               else if type def = FUNCTION_LIKE \<and> token (list ! (i + 1)) \<noteq> PUNCT (CHR ''('')
               then rec tab1 expand_stack list (i + 1)
               else
                 (case expand_one rec e tab1 expand_stack list i def of
                    None \<Rightarrow> None
                  | Some (Inl err) \<Rightarrow> Some (Inl err)
                  | Some (Inr (tab2, list', i')) \<Rightarrow> rec tab2 expand_stack list' i'))
        else rec tab expand_stack list (i + 1)
      else Some (Inr (tab, list)))"

primrec expand_loop :: "nat \<Rightarrow> env \<Rightarrow> expander" where
  "expand_loop 0 e tab expand_stack list i = None"
| "expand_loop (Suc n) e tab expand_stack list i =
     expand_body (expand_loop n e) e tab expand_stack list i"

text \<open>\<^verbatim>\<open>expand(list)\<close>: the loop from index 0, under the current stack.\<close>

definition expand ::
  "nat \<Rightarrow> env \<Rightarrow> hash_table \<Rightarrow> string list \<Rightarrow> token list
     \<Rightarrow> (error + hash_table \<times> token list) option" where
  "expand n e tab expand_stack list = expand_loop n e tab expand_stack list 0"

section \<open>Concrete tokens and a concrete environment\<close>

text \<open>
  Tokens and collaborators for running the engine on concrete inputs: an identifier and
  a punctuator carry their spelling, a \<^verbatim>\<open>PARAM\<close> token carries its index, the spelling
  of a token is its string payload, and the tokenizer reads its whole input as one
  identifier.
\<close>

definition ident_token :: "string \<Rightarrow> token" where
  "ident_token s = (basic_token IDENTIFIER)\<lparr>d_string := s\<rparr>"

definition punctuator :: "char \<Rightarrow> token" where
  "punctuator c = (basic_token (PUNCT c))\<lparr>d_string := [c]\<rparr>"

definition param_token :: "nat \<Rightarrow> token" where
  "param_token k = (basic_token PARAM)\<lparr>d_number := \<lparr>ntype = T_SIGNED, val = of_nat k\<rparr>\<rparr>"

definition example_env :: env where
  "example_env =
     \<lparr>current_file_path = ''main.c'', current_file_line = 17,
      tokenize = (\<lambda>s. (ident_token s, [])), tokstr = d_string, ndebug = False\<rparr>"

definition new_macro :: "string \<Rightarrow> macro_type \<Rightarrow> nat \<Rightarrow> token list \<Rightarrow> macro" where
  "new_macro n ty p r =
     \<lparr>name = n, type = ty, params = p, replacement = r,
      stringify = False, is__file = False, is__line = False\<rparr>"

text \<open>
  Token and macro equality in the words of the specification: two tokens are equal when
  their kinds match and, for \<^verbatim>\<open>PARAM\<close>, the parameter indices are equal, for
  \<^verbatim>\<open>NUMBER\<close>, the numeric types and the bit patterns of the values are equal, and
  otherwise the string payloads are equal; two macros are equal when type, arity, name and
  replacement length agree and the tokens are equal pair by pair.
\<close>

definition token_equal :: "token \<Rightarrow> token \<Rightarrow> bool" where
  "token_equal a b =
     (token a = token b \<and>
      (if token a = PARAM then val (d_number a) = val (d_number b)
       else if token a = NUMBER then
         ntype (d_number a) = ntype (d_number b) \<and> val (d_number a) = val (d_number b)
       else d_string a = d_string b))"

definition macro_equal :: "macro \<Rightarrow> macro \<Rightarrow> bool" where
  "macro_equal a b =
     (type a = type b \<and> params a = params b \<and> name a = name b \<and>
      length (replacement a) = length (replacement b) \<and>
      list_all2 token_equal (replacement a) (replacement b))"

definition table_A :: hash_table where
  "table_A = [new_macro ''A'' OBJECT_LIKE 0 [ident_token ''B'']]"

text \<open>
  The flags \<^verbatim>\<open>is__file__\<close> and \<^verbatim>\<open>is__line__\<close> of a stored macro are written by
  \<^verbatim>\<open>define\<close> alone, from the macro's name; \<open>flags_by_name\<close> says so of a table.
\<close>

definition flags_by_name :: "hash_table \<Rightarrow> bool" where
  "flags_by_name tab =
     list_all (\<lambda>m. is__file m = (name m = ''__FILE__'') \<and> is__line m = (name m = ''__LINE__''))
       tab"

definition prep_number_token :: "string \<Rightarrow> token" where
  "prep_number_token s = (basic_token PREP_NUMBER)\<lparr>d_string := s\<rparr>"

definition table_builtin :: hash_table where
  "table_builtin =
     [(new_macro ''__FILE__'' OBJECT_LIKE 0 [prep_number_token ''0'', ident_token ''x''])
        \<lparr>is__file := True\<rparr>,
      (new_macro ''__LINE__'' OBJECT_LIKE 0 [prep_number_token ''0''])\<lparr>is__line := True\<rparr>,
      new_macro ''A'' OBJECT_LIKE 0 [ident_token ''B'']]"

definition table_f :: hash_table where
  "table_f = [new_macro ''f'' FUNCTION_LIKE 1 [param_token 0]]"

definition table_g_f :: hash_table where
  "table_g_f =
     [new_macro ''g'' OBJECT_LIKE 0 [ident_token ''f''],
      new_macro ''f'' FUNCTION_LIKE 1 [param_token 0]]"

definition table_f_E :: hash_table where
  "table_f_E =
     [new_macro ''f'' FUNCTION_LIKE 1 [param_token 0], new_macro ''E'' OBJECT_LIKE 0 []]"

definition table_empty_file :: hash_table where
  "table_empty_file = [(new_macro ''__FILE__'' OBJECT_LIKE 0 [])\<lparr>is__file := True\<rparr>]"

definition table_empty_line :: hash_table where
  "table_empty_line = [(new_macro ''__LINE__'' OBJECT_LIKE 0 [])\<lparr>is__line := True\<rparr>]"

text \<open>
  Notions for reasoning about the fuel: \<open>expander_le rec rec'\<close> says that \<open>rec'\<close>
  returns whatever \<open>rec\<close> returns, \<open>keeps_names rec\<close> that a run of \<open>rec\<close> leaves
  the names stored in the table as they are, and \<open>enabled tab expand_stack\<close> counts the
  names of the table that are not on the stack.
\<close>

definition expander_le :: "expander \<Rightarrow> expander \<Rightarrow> bool" where
  "expander_le rec rec' =
     (\<forall>tab st l i r. rec tab st l i = Some r \<longrightarrow> rec' tab st l i = Some r)"

definition keeps_names :: "expander \<Rightarrow> bool" where
  "keeps_names rec =
     (\<forall>tab st l i tab' l'. rec tab st l i = Some (Inr (tab', l')) \<longrightarrow>
        map name tab' = map name tab)"

definition enabled :: "hash_table \<Rightarrow> string list \<Rightarrow> nat" where
  "enabled tab expand_stack = card (name ` set tab - set expand_stack)"

text \<open>
  The tables and arrays of the examples below. Each table is written out as
  \<^verbatim>\<open>define\<close> leaves it; \<open>example_tables_defined\<close> checks that.
\<close>

definition table_F :: hash_table where
  "table_F = [new_macro ''F'' OBJECT_LIKE 0 [ident_token ''F'']]"

definition table_f_self :: hash_table where
  "table_f_self = [new_macro ''f'' FUNCTION_LIKE 1 [ident_token ''f'']]"

definition call_twice :: "token list" where
  "call_twice =
     [ident_token ''f'', punctuator CHR ''('', ident_token ''1'', punctuator CHR '')'',
      punctuator CHR ''('', ident_token ''2'', punctuator CHR '')'']"

definition call_left :: "token list" where
  "call_left =
     [ident_token ''f'', punctuator CHR ''('', ident_token ''2'', punctuator CHR '')'']"

text \<open>\<open>param_free\<close>: no token of the list is a \<^verbatim>\<open>PARAM\<close> placeholder.\<close>

definition param_free :: "token list \<Rightarrow> bool" where
  "param_free list = (PARAM \<notin> token ` set list)"

definition keeps_param_free :: "expander \<Rightarrow> bool" where
  "keeps_param_free rec =
     (\<forall>tab st l i tab' l'. param_free l \<and> rec tab st l i = Some (Inr (tab', l')) \<longrightarrow>
        param_free l')"

definition table_A_paste :: hash_table where
  "table_A_paste = [new_macro ''A'' OBJECT_LIKE 0 [ident_token ''x'', basic_token TOKEN_PASTE]]"

section \<open>The example tables are built by define\<close>

lemma example_tables_defined:
  "define_macro [] (new_macro ''A'' OBJECT_LIKE 0 [ident_token ''B'']) = Inr table_A"
  "define_macro [] (new_macro ''F'' OBJECT_LIKE 0 [ident_token ''F'']) = Inr table_F"
  "define_macro [] (new_macro ''f'' FUNCTION_LIKE 1 [param_token 0]) = Inr table_f"
  "define_macro [] (new_macro ''f'' FUNCTION_LIKE 1 [ident_token ''f'']) = Inr table_f_self"
  "define_macro table_f (new_macro ''E'' OBJECT_LIKE 0 []) = Inr table_f_E"
  "define_macro [new_macro ''g'' OBJECT_LIKE 0 [ident_token ''f'']]
     (new_macro ''f'' FUNCTION_LIKE 1 [param_token 0]) = Inr table_g_f"
  "define_macro [] (new_macro ''A'' OBJECT_LIKE 0 [ident_token ''x'', basic_token TOKEN_PASTE])
     = Inr table_A_paste"
  "define_macro [] (new_macro ''__FILE__'' OBJECT_LIKE 0 [prep_number_token ''0'', ident_token ''x''])
     = Inr (take 1 table_builtin)"
  "define_macro (take 1 table_builtin) (new_macro ''__LINE__'' OBJECT_LIKE 0 [prep_number_token ''0''])
     = Inr (take 2 table_builtin)"
  "define_macro (take 2 table_builtin) (new_macro ''A'' OBJECT_LIKE 0 [ident_token ''B''])
     = Inr table_builtin"
  by code_simp+

section \<open>Token and macro equality\<close>

lemma sint_inject: "sint (a :: 64 word) = sint b \<longleftrightarrow> a = b"
  by (metis signed_word_eqI)

lemma tok_cmp_token_equal: "tok_cmp a b = 0 \<longleftrightarrow> token_equal a b"
  by (simp add: tok_cmp_def token_equal_def str_cmp_def type_equal_def sint_inject
      word_uint_eq_iff [symmetric])

lemma token_equal_refl: "token_equal a a"
  by (simp add: token_equal_def)

lemma token_equal_sym: "token_equal a b \<Longrightarrow> token_equal b a"
  by (auto simp: token_equal_def split: if_splits)

lemma token_equal_trans: "token_equal a b \<Longrightarrow> token_equal b c \<Longrightarrow> token_equal a c"
  by (auto simp: token_equal_def split: if_splits)

lemma macrocmp_loop_all2:
  "length xs = length ys \<Longrightarrow> macrocmp_loop xs ys = 0 \<longleftrightarrow> list_all2 token_equal xs ys"
  by (induction xs ys rule: list_induct2) (simp_all add: tok_cmp_token_equal)

lemma macrocmp_macro_equal: "macrocmp a b = 0 \<longleftrightarrow> macro_equal a b"
  by (auto simp: macrocmp_def macro_equal_def str_cmp_def macrocmp_loop_all2
      dest: list_all2_lengthD)

lemma list_all2_token_equal_refl: "list_all2 token_equal xs xs"
  by (simp add: list_all2_refl token_equal_refl)

lemma list_all2_token_equal_trans:
  "list_all2 token_equal xs ys \<Longrightarrow> list_all2 token_equal ys zs \<Longrightarrow> list_all2 token_equal xs zs"
  using list_all2_trans [of token_equal token_equal token_equal xs ys zs] token_equal_trans
  by blast

lemma list_all2_token_equal_sym:
  "list_all2 token_equal xs ys \<Longrightarrow> list_all2 token_equal ys xs"
  by (simp add: list_all2_conv_all_nth token_equal_sym)

lemma macro_equal_refl: "macro_equal m m"
  by (simp add: macro_equal_def list_all2_token_equal_refl)

lemma macro_equal_sym: "macro_equal a b \<Longrightarrow> macro_equal b a"
  by (simp add: macro_equal_def list_all2_token_equal_sym)

lemma macro_equal_trans: "macro_equal a b \<Longrightarrow> macro_equal b c \<Longrightarrow> macro_equal a c"
  by (auto simp: macro_equal_def intro: list_all2_token_equal_trans)

section \<open>The table under lookup, store and define\<close>

lemma hash_lookup_name: "hash_lookup tab n = Some m \<Longrightarrow> name m = n"
  by (induction tab) (auto simp: hash_lookup_def split: if_splits)

lemma hash_lookup_mem: "hash_lookup tab n = Some m \<Longrightarrow> m \<in> set tab"
  by (induction tab) (auto simp: hash_lookup_def split: if_splits)

lemma hash_lookup_None: "hash_lookup tab n = None \<longleftrightarrow> n \<notin> name ` set tab"
  by (induction tab) (auto simp: hash_lookup_def)

lemma hash_store_names: "map name (hash_store tab r) = map name tab"
  by (induction tab) auto

lemma hash_store_length: "length (hash_store tab r) = length tab"
  by (induction tab) auto

lemma hash_store_other:
  "k < length tab \<Longrightarrow> name (tab ! k) \<noteq> name r \<Longrightarrow> hash_store tab r ! k = tab ! k"
proof (induction tab arbitrary: k)
  case Nil
  then show ?case by simp
next
  case (Cons m tab)
  then show ?case by (cases k) auto
qed

lemma hash_lookup_store_same:
  "hash_lookup tab (name r) = Some m \<Longrightarrow> hash_lookup (hash_store tab r) (name r) = Some r"
  by (induction tab) (auto simp: hash_lookup_def split: if_splits)

lemma hash_lookup_store_other:
  "n \<noteq> name r \<Longrightarrow> hash_lookup (hash_store tab r) n = hash_lookup tab n"
  by (induction tab) (auto simp: hash_lookup_def)

lemma hash_lookup_append_new:
  "hash_lookup tab (name m) = None \<Longrightarrow> hash_lookup (tab @ [m]) (name m) = Some m"
  by (induction tab) (auto simp: hash_lookup_def split: if_splits)

lemma define_macro_outcome:
  "define_macro tab m = Inl Redefinition \<or> (\<exists>tab'. define_macro tab m = Inr tab')"
  by (simp add: define_macro_def split: prod.splits)

lemma define_macro_existing:
  assumes "hash_lookup tab (name m) = Some r"
  shows "define_macro tab m = Inl Redefinition \<longleftrightarrow> \<not> macro_equal r m"
  using assms by (simp add: define_macro_def hash_insert_def macrocmp_macro_equal)

lemma define_macro_stored:
  assumes "define_macro tab m = Inr tab'"
  shows "\<exists>r. hash_lookup tab' (name m) = Some r \<and> macro_equal r m"
proof (cases "hash_lookup tab (name m)")
  case None
  let ?r = "m\<lparr>stringify := has_stringify_replacement m,
               is__file := (str_cmp ''__FILE__'' (name m) = 0),
               is__line := (str_cmp ''__LINE__'' (name m) = 0)\<rparr>"
  have n: "name ?r = name m" by simp
  from None assms have tab': "tab' = hash_store (tab @ [m]) ?r"
    by (simp add: define_macro_def hash_insert_def split: if_splits)
  have "hash_lookup (tab @ [m]) (name ?r) = Some m"
    using None by (simp add: hash_lookup_append_new)
  then have "hash_lookup tab' (name ?r) = Some ?r"
    unfolding tab' by (rule hash_lookup_store_same)
  moreover have "macro_equal ?r m"
    by (simp add: macro_equal_def list_all2_token_equal_refl)
  ultimately show ?thesis by auto
next
  case (Some ref)
  let ?r = "ref\<lparr>stringify := has_stringify_replacement ref,
               is__file := (str_cmp ''__FILE__'' (name ref) = 0),
               is__line := (str_cmp ''__LINE__'' (name ref) = 0)\<rparr>"
  have n: "name ?r = name m" using Some by (simp add: hash_lookup_name)
  from Some assms have tab': "tab' = hash_store tab ?r" and eq: "macro_equal ref m"
    by (simp_all add: define_macro_def hash_insert_def macrocmp_macro_equal split: if_splits)
  have "hash_lookup tab (name ?r) = Some ref"
    using Some n by simp
  then have "hash_lookup tab' (name ?r) = Some ?r"
    unfolding tab' by (rule hash_lookup_store_same)
  moreover have "macro_equal ?r m"
    using eq by (simp add: macro_equal_def)
  ultimately show ?thesis using n by auto
qed

text \<open>
  C7. When a macro of the same name is already stored, \<^verbatim>\<open>define\<close> is fatal exactly when
  the new macro differs from the stored one in type, arity, name, replacement length or
  some pair of tokens; defining the same macro twice succeeds, and a macro of the same
  name that differs in one of these respects is refused after it.
\<close>

theorem define_redefinition_iff:
  "(hash_lookup tab (name m) = Some r \<longrightarrow>
      (define_macro tab m = Inl Redefinition \<longleftrightarrow> \<not> macro_equal r m) \<and>
      (macro_equal r m \<longrightarrow> (\<exists>tab1. define_macro tab m = Inr tab1))) \<and>
   (define_macro tab m = Inr tab' \<longrightarrow> (\<exists>tab2. define_macro tab' m = Inr tab2)) \<and>
   (define_macro tab m = Inr tab' \<and> name m' = name m \<and> \<not> macro_equal m m' \<longrightarrow>
      define_macro tab' m' = Inl Redefinition)"
proof (intro conjI impI)
  assume "hash_lookup tab (name m) = Some r"
  then show iff: "define_macro tab m = Inl Redefinition \<longleftrightarrow> \<not> macro_equal r m"
    by (rule define_macro_existing)
  assume "macro_equal r m"
  with iff define_macro_outcome [of tab m] show "\<exists>tab1. define_macro tab m = Inr tab1"
    by auto
next
  assume "define_macro tab m = Inr tab'"
  then obtain r where r: "hash_lookup tab' (name m) = Some r" "macro_equal r m"
    using define_macro_stored by blast
  then have "define_macro tab' m \<noteq> Inl Redefinition"
    by (simp add: define_macro_existing)
  with define_macro_outcome [of tab' m] show "\<exists>tab2. define_macro tab' m = Inr tab2"
    by auto
next
  assume a: "define_macro tab m = Inr tab' \<and> name m' = name m \<and> \<not> macro_equal m m'"
  then obtain r where r: "hash_lookup tab' (name m) = Some r" "macro_equal r m"
    using define_macro_stored by blast
  have "\<not> macro_equal r m'"
    using a r(2) macro_equal_sym macro_equal_trans by blast
  moreover have "hash_lookup tab' (name m') = Some r"
    using a r(1) by simp
  ultimately show "define_macro tab' m' = Inl Redefinition"
    by (simp add: define_macro_existing)
qed

theorem define_redefinition_iff_witness:
  "define_macro [] (new_macro ''A'' OBJECT_LIKE 0 [ident_token ''B'']) = Inr table_A \<and>
   hash_lookup table_A ''A'' = Some (new_macro ''A'' OBJECT_LIKE 0 [ident_token ''B'']) \<and>
   macro_equal (new_macro ''A'' OBJECT_LIKE 0 [ident_token ''B''])
     (new_macro ''A'' OBJECT_LIKE 0 [ident_token ''B'']) \<and>
   (\<exists>tab2. define_macro table_A (new_macro ''A'' OBJECT_LIKE 0 [ident_token ''B'']) = Inr tab2) \<and>
   \<not> macro_equal (new_macro ''A'' OBJECT_LIKE 0 [ident_token ''B''])
       (new_macro ''A'' OBJECT_LIKE 0 [ident_token ''C'']) \<and>
   define_macro table_A (new_macro ''A'' OBJECT_LIKE 0 [ident_token ''C'']) = Inl Redefinition"
proof -
  let ?m = "new_macro ''A'' OBJECT_LIKE 0 [ident_token ''B'']"
  let ?m' = "new_macro ''A'' OBJECT_LIKE 0 [ident_token ''C'']"
  have 1: "define_macro [] ?m = Inr table_A" by code_simp
  have 2: "hash_lookup table_A (name ?m) = Some ?m" "hash_lookup table_A (name ?m') = Some ?m"
    by code_simp+
  have 3: "\<not> macro_equal ?m ?m'" "macro_equal ?m ?m"
    by (simp_all add: macro_equal_def new_macro_def token_equal_def ident_token_def
        basic_token_def)
  have 4: "name ?m' = name ?m" "name ?m = ''A''" by (simp_all add: new_macro_def)
  have a: "\<exists>tab2. define_macro table_A ?m = Inr tab2"
    using define_redefinition_iff [of table_A ?m ?m table_A ?m'] 2 3 by blast
  have b: "define_macro table_A ?m' = Inl Redefinition"
    using define_redefinition_iff [of table_A ?m' ?m table_A ?m'] 2 3 by blast
  have c: "define_macro table_A ?m' = Inl Redefinition"
    using define_redefinition_iff [of "[]" ?m ?m table_A ?m'] 1 3 4 by blast
  from 1 2 3 4 a b show ?thesis by simp
qed

section \<open>Lookup leaves the rest of the table alone\<close>

lemma flags_by_name_empty: "flags_by_name []"
  by (simp add: flags_by_name_def)

lemma flags_by_name_store:
  "flags_by_name tab \<Longrightarrow> is__file r = (name r = ''__FILE__'') \<Longrightarrow>
   is__line r = (name r = ''__LINE__'') \<Longrightarrow> flags_by_name (hash_store tab r)"
  by (induction tab) (auto simp: flags_by_name_def)

lemma flags_by_name_lookup:
  "flags_by_name tab \<Longrightarrow> hash_lookup tab n = Some m \<Longrightarrow>
   is__file m = (n = ''__FILE__'') \<and> is__line m = (n = ''__LINE__'')"
  by (induction tab) (auto simp: flags_by_name_def hash_lookup_def split: if_splits)

lemma flags_by_name_define:
  assumes "flags_by_name tab" and "define_macro tab m = Inr tab'"
  shows "flags_by_name tab'"
proof (cases "hash_lookup tab (name m)")
  case None
  with assms(2) have "tab' = hash_store (tab @ [m])
      (m\<lparr>stringify := has_stringify_replacement m,
         is__file := (str_cmp ''__FILE__'' (name m) = 0),
         is__line := (str_cmp ''__LINE__'' (name m) = 0)\<rparr>)"
    by (simp add: define_macro_def hash_insert_def split: if_splits)
  moreover have "flags_by_name (hash_store (tab @ [m]) r)"
    if "is__file r = (name r = ''__FILE__'')" "is__line r = (name r = ''__LINE__'')"
      "name r = name m" for r
    using assms(1) that None
    by (induction tab) (auto simp: flags_by_name_def hash_lookup_def split: if_splits)
  ultimately show ?thesis by (auto simp: str_cmp_def)
next
  case (Some ref)
  with assms(2) have "tab' = hash_store tab
      (ref\<lparr>stringify := has_stringify_replacement ref,
         is__file := (str_cmp ''__FILE__'' (name ref) = 0),
         is__line := (str_cmp ''__LINE__'' (name ref) = 0)\<rparr>)"
    by (simp add: define_macro_def hash_insert_def split: if_splits)
  then show ?thesis
    using assms(1) by (auto simp: str_cmp_def intro!: flags_by_name_store)
qed

lemma flags_by_name_remove: "flags_by_name tab \<Longrightarrow> flags_by_name (undef tab n)"
  unfolding undef_def by (induction tab) (auto simp: flags_by_name_def)

lemma flags_by_name_definition_lookup:
  assumes "flags_by_name tab" and "definition_lookup e tab n = Inr (tab', r)"
  shows "flags_by_name tab'"
proof (cases "hash_lookup tab n")
  case None
  with assms show ?thesis by (simp add: definition_lookup_def)
next
  case (Some m)
  with assms(1) have "is__file m = (name m = ''__FILE__'')" "is__line m = (name m = ''__LINE__'')"
    using flags_by_name_lookup hash_lookup_name by blast+
  with assms Some show ?thesis
    by (auto simp: definition_lookup_def Let_def split: if_splits
        intro!: flags_by_name_store)
qed

lemma definition_lookup_miss:
  "hash_lookup tab n = None \<Longrightarrow> definition_lookup e tab n = Inr (tab, None)"
  by (simp add: definition_lookup_def)

text \<open>
  What a lookup that returns does to the table. When it finds the macro flagged
  \<^verbatim>\<open>is__file__\<close> it stores a \<^verbatim>\<open>STRING\<close> token with the current file path in slot 0
  of the replacement, when it finds the macro flagged \<^verbatim>\<open>is__line__\<close> it stores a
  \<^verbatim>\<open>PREP_NUMBER\<close> token with the decimal of the current line there, and nothing else
  changes: the other slots and fields of that macro, and every other entry of the table,
  are as before; a lookup that finds an unflagged macro or none leaves the table as it is.
\<close>

lemma definition_lookup_frame:
  assumes "flags_by_name tab" and "definition_lookup e tab n = Inr (tab', r)"
  shows "(hash_lookup tab n = None \<longrightarrow> r = None \<and> tab' = tab) \<and>
    (\<forall>m. hash_lookup tab n = Some m \<longrightarrow>
       (\<exists>m'. r = Some m' \<and> hash_lookup tab' n = Some m' \<and>
          (is__file m \<longrightarrow>
             token (replacement m' ! 0) = STRING \<and>
             d_string (replacement m' ! 0) = current_file_path e) \<and>
          (is__line m \<longrightarrow>
             token (replacement m' ! 0) = PREP_NUMBER \<and>
             d_string (replacement m' ! 0) = snprintf_d (current_file_line e)) \<and>
          (\<not> is__file m \<and> \<not> is__line m \<longrightarrow> m' = m \<and> tab' = tab) \<and>
          length (replacement m') = length (replacement m) \<and>
          (\<forall>k. 0 < k \<and> k < length (replacement m) \<longrightarrow>
             replacement m' ! k = replacement m ! k) \<and>
          m'\<lparr>replacement := replacement m\<rparr> = m \<and>
          length tab' = length tab \<and>
          (\<forall>k. k < length tab \<and> name (tab ! k) \<noteq> n \<longrightarrow> tab' ! k = tab ! k)))"
proof (rule conjI; (rule allI)?; rule impI)
  assume "hash_lookup tab n = None"
  with assms(2) show "r = None \<and> tab' = tab"
    by (simp add: definition_lookup_def)
next
  fix m
  assume m: "hash_lookup tab n = Some m"
  then have nm: "name m = n" by (rule hash_lookup_name)
  from assms(1) m have flags: "is__file m = (n = ''__FILE__'')" "is__line m = (n = ''__LINE__'')"
    using flags_by_name_lookup by blast+
  show "\<exists>m'. r = Some m' \<and> hash_lookup tab' n = Some m' \<and>
          (is__file m \<longrightarrow>
             token (replacement m' ! 0) = STRING \<and>
             d_string (replacement m' ! 0) = current_file_path e) \<and>
          (is__line m \<longrightarrow>
             token (replacement m' ! 0) = PREP_NUMBER \<and>
             d_string (replacement m' ! 0) = snprintf_d (current_file_line e)) \<and>
          (\<not> is__file m \<and> \<not> is__line m \<longrightarrow> m' = m \<and> tab' = tab) \<and>
          length (replacement m') = length (replacement m) \<and>
          (\<forall>k. 0 < k \<and> k < length (replacement m) \<longrightarrow>
             replacement m' ! k = replacement m ! k) \<and>
          m'\<lparr>replacement := replacement m\<rparr> = m \<and>
          length tab' = length tab \<and>
          (\<forall>k. k < length tab \<and> name (tab ! k) \<noteq> n \<longrightarrow> tab' ! k = tab ! k)"
  proof (cases "is__file m")
    case True
    let ?m' = "m\<lparr>replacement := (replacement m)[0 := get__file__token e]\<rparr>"
    from True m assms(2) have ne: "replacement m \<noteq> []"
      and r: "r = Some ?m'" and tab': "tab' = hash_store tab ?m'"
      by (auto simp: definition_lookup_def Let_def split: if_splits)
    have "hash_lookup tab (name ?m') = Some m" using m nm by simp
    then have "hash_lookup tab' (name ?m') = Some ?m'"
      unfolding tab' by (rule hash_lookup_store_same)
    then have look: "hash_lookup tab' n = Some ?m'" using nm by simp
    have other: "\<forall>k. k < length tab \<and> name (tab ! k) \<noteq> n \<longrightarrow> tab' ! k = tab ! k"
      unfolding tab' using nm by (simp add: hash_store_other)
    from True flags have "\<not> is__line m" by simp
    with True ne r look other show ?thesis
      by (simp add: tab' hash_store_length get__file__token_def)
  next
    case False
    show ?thesis
    proof (cases "is__line m")
      case True
      let ?m' = "m\<lparr>replacement := (replacement m)[0 := get__line__token e]\<rparr>"
      from True False m assms(2) have ne: "replacement m \<noteq> []"
        and r: "r = Some ?m'" and tab': "tab' = hash_store tab ?m'"
        by (auto simp: definition_lookup_def Let_def split: if_splits)
      have "hash_lookup tab (name ?m') = Some m" using m nm by simp
      then have "hash_lookup tab' (name ?m') = Some ?m'"
        unfolding tab' by (rule hash_lookup_store_same)
      then have look: "hash_lookup tab' n = Some ?m'" using nm by simp
      have other: "\<forall>k. k < length tab \<and> name (tab ! k) \<noteq> n \<longrightarrow> tab' ! k = tab ! k"
        unfolding tab' using nm by (simp add: hash_store_other)
      from True False ne r look other show ?thesis
        by (simp add: tab' hash_store_length get__line__token_def basic_token_def)
    next
      case nl: False
      from False nl m assms(2) have "r = Some m" "tab' = tab"
        by (auto simp: definition_lookup_def)
      with False nl m show ?thesis by simp
    qed
  qed
qed

lemma definition_lookup_frame_example:
  "flags_by_name table_builtin \<and>
   (\<exists>tab' m'. definition_lookup example_env table_builtin ''__FILE__'' = Inr (tab', Some m') \<and>
      token (replacement m' ! 0) = STRING \<and> d_string (replacement m' ! 0) = ''main.c'' \<and>
      replacement m' ! 1 = ident_token ''x'' \<and>
      tab' ! 1 = table_builtin ! 1 \<and> tab' ! 2 = table_builtin ! 2) \<and>
   (\<exists>tab' m'. definition_lookup example_env table_builtin ''__LINE__'' = Inr (tab', Some m') \<and>
      token (replacement m' ! 0) = PREP_NUMBER \<and> d_string (replacement m' ! 0) = ''17'' \<and>
      tab' ! 0 = table_builtin ! 0 \<and> tab' ! 2 = table_builtin ! 2) \<and>
   definition_lookup example_env table_builtin ''A''
     = Inr (table_builtin, Some (table_builtin ! 2)) \<and>
   definition_lookup example_env table_builtin ''Z'' = Inr (table_builtin, None)"
proof -
  let ?F = "table_builtin ! 0" and ?L = "table_builtin ! 1"
  have wf: "flags_by_name table_builtin"
    by (simp add: flags_by_name_def table_builtin_def new_macro_def)
  have lF: "hash_lookup table_builtin ''__FILE__'' = Some ?F"
    and lL: "hash_lookup table_builtin ''__LINE__'' = Some ?L"
    by (simp_all add: hash_lookup_def table_builtin_def new_macro_def)
  have facts: "is__file ?F" "is__line ?L" "length table_builtin = 3"
    "name (table_builtin ! 1) \<noteq> ''__FILE__''" "name (table_builtin ! 2) \<noteq> ''__FILE__''"
    "name (table_builtin ! 0) \<noteq> ''__LINE__''" "name (table_builtin ! 2) \<noteq> ''__LINE__''"
    "replacement ?F = [prep_number_token ''0'', ident_token ''x'']"
    by (simp_all add: table_builtin_def new_macro_def)
  have line: "snprintf_d (current_file_line example_env) = ''17''"
    by code_simp
  have path: "current_file_path example_env = ''main.c''"
    by (simp add: example_env_def)
  obtain tabF mF
    where F: "definition_lookup example_env table_builtin ''__FILE__'' = Inr (tabF, Some mF)"
    using lF facts(1,8) by (simp add: definition_lookup_def Let_def)
  obtain tabL mL
    where L: "definition_lookup example_env table_builtin ''__LINE__'' = Inr (tabL, Some mL)"
    using lL by (simp add: definition_lookup_def Let_def table_builtin_def new_macro_def)
  from definition_lookup_frame [OF wf F] lF obtain m'
    where m': "Some mF = Some m'"
      "is__file ?F \<longrightarrow> token (replacement m' ! 0) = STRING \<and>
         d_string (replacement m' ! 0) = current_file_path example_env"
      "\<forall>k. 0 < k \<and> k < length (replacement ?F) \<longrightarrow> replacement m' ! k = replacement ?F ! k"
      "\<forall>k. k < length table_builtin \<and> name (table_builtin ! k) \<noteq> ''__FILE__'' \<longrightarrow>
         tabF ! k = table_builtin ! k"
    by blast
  have gF: "token (replacement mF ! 0) = STRING \<and> d_string (replacement mF ! 0) = ''main.c'' \<and>
      replacement mF ! 1 = ident_token ''x'' \<and>
      tabF ! 1 = table_builtin ! 1 \<and> tabF ! 2 = table_builtin ! 2"
    using m'(1) m'(2) m'(3) [rule_format, of 1] m'(4) [rule_format, of 1]
      m'(4) [rule_format, of 2] facts path
    by simp
  from definition_lookup_frame [OF wf L] lL obtain m''
    where m'': "Some mL = Some m''"
      "is__line ?L \<longrightarrow> token (replacement m'' ! 0) = PREP_NUMBER \<and>
         d_string (replacement m'' ! 0) = snprintf_d (current_file_line example_env)"
      "\<forall>k. k < length table_builtin \<and> name (table_builtin ! k) \<noteq> ''__LINE__'' \<longrightarrow>
         tabL ! k = table_builtin ! k"
    by blast
  have gL: "token (replacement mL ! 0) = PREP_NUMBER \<and> d_string (replacement mL ! 0) = ''17'' \<and>
      tabL ! 0 = table_builtin ! 0 \<and> tabL ! 2 = table_builtin ! 2"
    using m''(1) m''(2) m''(3) [rule_format, of 0] m''(3) [rule_format, of 2] facts line
    by simp
  have lA: "hash_lookup table_builtin ''A'' = Some (table_builtin ! 2)"
    and lZ: "hash_lookup table_builtin ''Z'' = None"
    and fA: "\<not> is__file (table_builtin ! 2)" "\<not> is__line (table_builtin ! 2)"
    by (simp_all add: hash_lookup_def table_builtin_def new_macro_def)
  obtain tabA rA
    where A: "definition_lookup example_env table_builtin ''A'' = Inr (tabA, rA)"
    using lA fA by (simp add: definition_lookup_def)
  obtain tabZ rZ
    where Z: "definition_lookup example_env table_builtin ''Z'' = Inr (tabZ, rZ)"
    using lZ by (simp add: definition_lookup_def)
  from definition_lookup_frame [OF wf A] lA fA
  have gA: "rA = Some (table_builtin ! 2) \<and> tabA = table_builtin"
    by blast
  from definition_lookup_frame [OF wf Z] lZ
  have gZ: "rZ = None \<and> tabZ = table_builtin"
    by blast
  from wf F gF L gL A gA Z gZ show ?thesis by blast
qed

text \<open>
  C8. A lookup that finds a flagged macro writes slot 0 of its replacement without
  looking at the length of the replacement. \<^verbatim>\<open>define\<close> sets the flags from the name
  alone, so \<^verbatim>\<open>#define __FILE__\<close> with an empty body stores a flagged macro whose
  replacement is empty, and the lookup of \<^verbatim>\<open>__FILE__\<close> then writes beyond the end of
  that array instead of overwriting a slot 0.
\<close>

theorem lookup_of_empty_builtin_out_of_bounds:
  assumes "hash_lookup tab n = Some m" and "is__file m \<or> is__line m"
    and "replacement m = []"
  shows "definition_lookup e tab n = Inl Out_of_bounds"
  using assms by (auto simp: definition_lookup_def)

theorem lookup_of_empty_builtin_out_of_bounds_witness:
  "define_macro [] (new_macro ''__FILE__'' OBJECT_LIKE 0 []) = Inr table_empty_file \<and>
   flags_by_name table_empty_file \<and>
   definition_lookup example_env table_empty_file ''__FILE__'' = Inl Out_of_bounds \<and>
   define_macro [] (new_macro ''__LINE__'' OBJECT_LIKE 0 []) = Inr table_empty_line \<and>
   definition_lookup example_env table_empty_line ''__LINE__'' = Inl Out_of_bounds \<and>
   expand 1 example_env table_empty_file [] [ident_token ''__FILE__''] = Some (Inl Out_of_bounds)"
proof -
  have d: "define_macro [] (new_macro ''__FILE__'' OBJECT_LIKE 0 []) = Inr table_empty_file"
    "define_macro [] (new_macro ''__LINE__'' OBJECT_LIKE 0 []) = Inr table_empty_line"
    by code_simp+
  have wf: "flags_by_name table_empty_file"
    using flags_by_name_define [OF flags_by_name_empty d(1)] .
  have f: "hash_lookup table_empty_file ''__FILE__'' = Some (table_empty_file ! 0)"
    "is__file (table_empty_file ! 0) \<or> is__line (table_empty_file ! 0)"
    "replacement (table_empty_file ! 0) = []"
    by (simp_all add: hash_lookup_def table_empty_file_def new_macro_def)
  have l: "hash_lookup table_empty_line ''__LINE__'' = Some (table_empty_line ! 0)"
    "is__file (table_empty_line ! 0) \<or> is__line (table_empty_line ! 0)"
    "replacement (table_empty_line ! 0) = []"
    by (simp_all add: hash_lookup_def table_empty_line_def new_macro_def)
  have x: "expand 1 example_env table_empty_file [] [ident_token ''__FILE__'']
      = Some (Inl Out_of_bounds)"
    by code_simp
  from d wf x lookup_of_empty_builtin_out_of_bounds [OF f, of example_env]
    lookup_of_empty_builtin_out_of_bounds [OF l, of example_env]
  show ?thesis by simp
qed

section \<open>The paste pass on short and on emptied lists\<close>

lemma unat_minus_one_32: "unat (- 1 :: 32 word) = 4294967295"
  by (simp add: unsigned_minus_1_eq_mask mask_eq_exp_minus_1)

text \<open>
  C4. A list of two tokens that ends in \<^verbatim>\<open>##\<close> passes the paste pass without an error
  and unchanged: the test for a trailing \<^verbatim>\<open>##\<close> sits under \<^verbatim>\<open>len > 2\<close>.
\<close>

theorem trailing_paste_of_two_accepted:
  assumes "token x \<noteq> TOKEN_PASTE" and "token p = TOKEN_PASTE"
  shows "expand_paste_operators e [x, p] = Inr [x, p]"
  using assms by (simp add: expand_paste_operators_def)

theorem trailing_paste_of_two_accepted_witness:
  "expand_paste_operators example_env [ident_token ''x'', basic_token TOKEN_PASTE]
     = Inr [ident_token ''x'', basic_token TOKEN_PASTE]"
  by (rule trailing_paste_of_two_accepted) (simp_all add: ident_token_def basic_token_def)

text \<open>
  C5. On \<^verbatim>\<open>[EMPTY_ARG, ##, EMPTY_ARG, t]\<close> the write cursor is decremented at 0 and wraps
  to \<open>2^32 - 1\<close>: the next turn of the loop fails \<^verbatim>\<open>assert(i < len)\<close>, and without the
  assertion the token \<open>t\<close> is counted but never copied, so the result is the one-element
  list holding the old \<^verbatim>\<open>EMPTY_ARG\<close>.
\<close>

theorem paste_of_two_empty_loses_token:
  assumes "token a = EMPTY_ARG" and "token p = TOKEN_PASTE" and "token b = EMPTY_ARG"
    and "token t \<noteq> TOKEN_PASTE" and "token t \<noteq> EMPTY_ARG"
  shows "expand_paste_operators e [a, p, b, t]
           = (if ndebug e then Inr [a] else Inl Assertion_failed)"
proof -
  have 3: "paste_loop e [a, p, b, t] 0 4 = Inr ([a, p, b, t], 0)"
    by (subst paste_loop.simps) simp
  have 2: "paste_loop e [a, p, b, t] (- 1) 3
             = (if ndebug e then Inr ([a, p, b, t], 0) else Inl Assertion_failed)"
    using assms 3 by (subst paste_loop.simps) (simp add: unat_minus_one_32)
  have 1: "paste_loop e [a, p, b, t] 0 1 = paste_loop e [a, p, b, t] (- 1) 3"
    using assms by (subst paste_loop.simps) (simp add: numeral_3_eq_3)
  have 0: "take 1 [a, p, b, t] = [a]" by simp
  show ?thesis
    using assms by (simp add: expand_paste_operators_def 0 1 2 del: One_nat_def)
qed

theorem paste_of_two_empty_loses_token_witness:
  "expand_paste_operators example_env
     [basic_token EMPTY_ARG, basic_token TOKEN_PASTE, basic_token EMPTY_ARG, ident_token ''t'']
     = Inl Assertion_failed \<and>
   expand_paste_operators (example_env\<lparr>ndebug := True\<rparr>)
     [basic_token EMPTY_ARG, basic_token TOKEN_PASTE, basic_token EMPTY_ARG, ident_token ''t'']
     = Inr [basic_token EMPTY_ARG]"
proof -
  have k: "token (basic_token EMPTY_ARG) = EMPTY_ARG" "token (basic_token TOKEN_PASTE) = TOKEN_PASTE"
    "token (ident_token ''t'') \<noteq> TOKEN_PASTE" "token (ident_token ''t'') \<noteq> EMPTY_ARG"
    by (simp_all add: basic_token_def ident_token_def)
  show ?thesis
    using paste_of_two_empty_loses_token [OF k(1) k(2) k(1) k(3) k(4), of example_env]
      paste_of_two_empty_loses_token [OF k(1) k(2) k(1) k(3) k(4), of "example_env\<lparr>ndebug := True\<rparr>"]
    by (simp add: example_env_def)
qed

section \<open>The argument reader\<close>

lemma read_arg_loop_never_negative:
  "0 \<le> nesting \<Longrightarrow> read_arg_loop nesting arg list \<noteq> Inl Negative_nesting"
proof (induction list arbitrary: nesting arg)
  case Nil
  then show ?case by simp
next
  case (Cons t list)
  show ?case
  proof (cases "nesting = 0")
    case True
    then show ?thesis
      using Cons.IH [of 1 "arg @ [t]"] Cons.IH [of 0 "arg @ [t]"]
      by (simp add: INT_MAX_def)
  next
    case False
    with Cons.prems have pos: "0 < nesting" by simp
    then show ?thesis
      using Cons.IH [of "nesting + 1" "arg @ [t]"] Cons.IH [of "nesting - 1" "arg @ [t]"]
        Cons.IH [of nesting "arg @ [t]"]
      by simp
  qed
qed

lemma read_arg_never_negative: "read_arg list \<noteq> Inl Negative_nesting"
  by (simp add: read_arg_def read_arg_loop_never_negative)

lemma read_args_loop_never_negative: "read_args_loop k list \<noteq> Inl Negative_nesting"
proof (induction k arbitrary: list)
  case 0
  then show ?case by simp
next
  case (Suc k)
  then show ?case
    using read_arg_never_negative
    by (auto simp: skip_def split: sum.splits prod.splits list.splits if_splits)
qed

lemma read_args_never_negative: "read_args def list \<noteq> Inl Negative_nesting"
  using read_args_loop_never_negative
  by (auto simp: read_args_def skip_def split: sum.splits prod.splits list.splits if_splits)

text \<open>
  C6, as the claim states it: some token stream makes the reader raise the paren
  underflow error. No stream does.
\<close>

theorem negative_nesting_unreachable:
  "\<not> (\<exists>list. read_arg list = Inl Negative_nesting)"
  by (simp add: read_arg_never_negative)

text \<open>
  C6, amended. The reader never raises the paren underflow error, neither for one
  argument nor for an argument list: a \<^verbatim>\<open>)\<close> met at depth 0 ends the argument before
  the depth is decremented, so the depth never falls below 0.
\<close>

theorem closing_paren_ends_argument:
  "read_arg list \<noteq> Inl Negative_nesting \<and>
   read_args def list \<noteq> Inl Negative_nesting \<and>
   (token t = PUNCT (CHR '')'') \<longrightarrow>
      read_arg (t # list) = Inr ([basic_token EMPTY_ARG], t # list) \<and>
      read_arg (ident_token s # t # list) = Inr ([ident_token s], t # list))"
proof (intro conjI impI)
  show "read_arg list \<noteq> Inl Negative_nesting"
    by (rule read_arg_never_negative)
  show "read_args def list \<noteq> Inl Negative_nesting"
    by (rule read_args_never_negative)
next
  assume "token t = PUNCT (CHR '')'')"
  then show "read_arg (t # list) = Inr ([basic_token EMPTY_ARG], t # list)"
    and "read_arg (ident_token s # t # list) = Inr ([ident_token s], t # list)"
    by (simp_all add: read_arg_def ident_token_def basic_token_def)
qed

theorem closing_paren_ends_argument_witness:
  "read_arg [ident_token ''a'', punctuator CHR '')'', punctuator CHR '')'']
     = Inr ([ident_token ''a''], [punctuator CHR '')'', punctuator CHR '')'']) \<and>
   read_arg [punctuator CHR '')'', punctuator CHR '')'']
     = Inr ([basic_token EMPTY_ARG], [punctuator CHR '')'', punctuator CHR '')''])"
  using closing_paren_ends_argument
    [of "[punctuator CHR '')'']" "new_macro ''f'' FUNCTION_LIKE 1 []" "punctuator CHR '')''" "''a''"]
  by (simp add: punctuator_def basic_token_def)

section \<open>Reads beyond the end of an array\<close>

text \<open>
  C9. When the expansion of an argument leaves it empty, the write to
  \<^verbatim>\<open>args[i].data[0].leading_whitespace\<close> that follows is beyond the end of the array.
\<close>

theorem emptied_argument_out_of_bounds:
  assumes "rec tab expand_stack a 0 = Some (Inr (tab1, []))"
  shows "expand_args rec tab expand_stack (a # args) = Some (Inl Out_of_bounds)"
  using assms by simp

theorem emptied_argument_out_of_bounds_witness:
  "expand_loop 3 example_env table_f_E [''f''] [ident_token ''E''] 0 = Some (Inr (table_f_E, [])) \<and>
   expand_args (expand_loop 3 example_env) table_f_E [''f''] [[ident_token ''E'']]
     = Some (Inl Out_of_bounds) \<and>
   expand 5 example_env table_f_E []
     [ident_token ''f'', punctuator CHR ''('', ident_token ''E'', punctuator CHR '')'']
     = Some (Inl Out_of_bounds)"
proof -
  have 1: "expand_loop 3 example_env table_f_E [''f''] [ident_token ''E''] 0
             = Some (Inr (table_f_E, []))"
    by code_simp
  have 2: "expand 5 example_env table_f_E []
     [ident_token ''f'', punctuator CHR ''('', ident_token ''E'', punctuator CHR '')'']
     = Some (Inl Out_of_bounds)"
    by code_simp
  have 3: "expand_args (expand_loop 3 example_env) table_f_E [''f''] [[ident_token ''E'']]
     = Some (Inl Out_of_bounds)"
    using 1 by (rule emptied_argument_out_of_bounds)
  from 1 3 2 show ?thesis by blast
qed

text \<open>
  C10. When the identifier of a defined, enabled function-like macro is the last token of
  the array, the test for the opening parenthesis reads the element one past the end.
\<close>

theorem lookahead_out_of_bounds:
  assumes "i < length list" and "token (list ! i) = IDENTIFIER"
    and "definition_lookup e tab (d_string (list ! i)) = Inr (tab1, Some def)"
    and "\<not> is_macro_expanded expand_stack def" and "type def = FUNCTION_LIKE"
    and "Suc i = length list"
  shows "expand_loop (Suc n) e tab expand_stack list i = Some (Inl Out_of_bounds)"
  using assms by (simp add: expand_body_def)

theorem lookahead_out_of_bounds_witness:
  "expand_loop 1 example_env table_f [] [ident_token ''f''] 0 = Some (Inl Out_of_bounds) \<and>
   expand 3 example_env table_g_f [] [ident_token ''g'', basic_token NEWLINE]
     = Some (Inl Out_of_bounds)"
proof -
  have 1: "definition_lookup example_env table_f (d_string ([ident_token ''f''] ! 0))
             = Inr (table_f, Some (table_f ! 0))"
    by code_simp
  have 2: "\<not> is_macro_expanded [] (table_f ! 0)" "type (table_f ! 0) = FUNCTION_LIKE"
    "token ([ident_token ''f''] ! 0) = IDENTIFIER" "0 < length [ident_token ''f'']"
    "Suc 0 = length [ident_token ''f'']"
    by (simp_all add: table_f_def new_macro_def ident_token_def basic_token_def)
  have 3: "expand 3 example_env table_g_f [] [ident_token ''g'', basic_token NEWLINE]
     = Some (Inl Out_of_bounds)"
    by code_simp
  have 4: "expand_loop (Suc 0) example_env table_f [] [ident_token ''f''] 0
     = Some (Inl Out_of_bounds)"
    using 2(4) 2(3) 1 2(1) 2(2) 2(5) by (rule lookahead_out_of_bounds)
  from 4 3 show ?thesis unfolding One_nat_def by blast
qed

section \<open>More fuel never changes a result\<close>

lemma expander_le_refl: "expander_le rec rec"
  by (simp add: expander_le_def)

lemma expander_leD:
  "expander_le rec rec' \<Longrightarrow> rec tab st l i = Some r \<Longrightarrow> rec' tab st l i = Some r"
  by (simp add: expander_le_def)

lemma expand_args_mono:
  assumes "expander_le rec rec'"
  shows "expand_args rec tab st args = Some r \<Longrightarrow> expand_args rec' tab st args = Some r"
proof (induction args arbitrary: tab r)
  case Nil
  then show ?case by simp
next
  case (Cons a args)
  show ?case
  proof (cases "rec tab st a 0")
    case None
    with Cons.prems show ?thesis by simp
  next
    case (Some x)
    then have x': "rec' tab st a 0 = Some x"
      using assms by (rule expander_leD [rotated])
    show ?thesis
    proof (cases x)
      case (Inl err)
      with Cons.prems Some x' show ?thesis by simp
    next
      case (Inr p)
      obtain tab1 a1 where p: "p = (tab1, a1)" by (cases p)
      show ?thesis
      proof (cases "length a1 = 0")
        case True
        with Cons.prems Some x' Inr p show ?thesis by simp
      next
        case False
        show ?thesis
        proof (cases "expand_args rec tab1 st args")
          case None
          with Cons.prems Some Inr p False show ?thesis by simp
        next
          case (Some y)
          then have "expand_args rec' tab1 st args = Some y" by (rule Cons.IH)
          with Cons.prems \<open>rec tab st a 0 = Some x\<close> x' Inr p False Some show ?thesis
            by simp
        qed
      qed
    qed
  qed
qed

lemma expand_macro_mono:
  assumes "expander_le rec rec'" and "expand_macro rec e tab st def args = Some r"
  shows "expand_macro rec' e tab st def args = Some r"
proof -
  note am = expand_args_mono [OF assms(1)]
  note le = expander_leD [OF assms(1)]
  show ?thesis
    using assms(2) unfolding expand_macro_def
    by (auto split: if_splits sum.splits option.splits prod.splits dest!: am le)
qed

lemma expand_one_mono:
  assumes "expander_le rec rec'" and "expand_one rec e tab st l i def = Some r"
  shows "expand_one rec' e tab st l i def = Some r"
proof -
  note mm = expand_macro_mono [OF assms(1)]
  show ?thesis
    using assms(2) unfolding expand_one_def
    by (auto split: sum.splits option.splits prod.splits dest!: mm)
qed

lemma expand_body_mono:
  assumes "expander_le rec rec'" and "expand_body rec e tab st l i = Some r"
  shows "expand_body rec' e tab st l i = Some r"
proof -
  note om = expand_one_mono [OF assms(1)]
  note le = expander_leD [OF assms(1)]
  show ?thesis
    using assms(2) unfolding expand_body_def
    by (auto split: if_splits sum.splits option.splits prod.splits dest!: om le)
qed

lemma expand_loop_Suc_le: "expander_le (expand_loop n e) (expand_loop (Suc n) e)"
proof (induction n)
  case 0
  then show ?case by (simp add: expander_le_def)
next
  case (Suc n)
  show ?case
    unfolding expander_le_def
  proof (intro allI impI)
    fix tab st l i r
    assume "expand_loop (Suc n) e tab st l i = Some r"
    then have "expand_body (expand_loop n e) e tab st l i = Some r" by simp
    then have "expand_body (expand_loop (Suc n) e) e tab st l i = Some r"
      using Suc.IH by (rule expand_body_mono [rotated])
    then show "expand_loop (Suc (Suc n)) e tab st l i = Some r" by simp
  qed
qed

lemma expand_loop_le: "n \<le> m \<Longrightarrow> expander_le (expand_loop n e) (expand_loop m e)"
proof (induction m)
  case 0
  then show ?case by (simp add: expander_le_refl)
next
  case (Suc m)
  show ?case
  proof (cases "n = Suc m")
    case True
    then show ?thesis by (simp add: expander_le_refl)
  next
    case False
    with Suc.prems have "n \<le> m" by simp
    then have "expander_le (expand_loop n e) (expand_loop m e)" by (rule Suc.IH)
    then show ?thesis
      using expand_loop_Suc_le [of m e] unfolding expander_le_def by blast
  qed
qed

lemma expand_loop_mono:
  "n \<le> m \<Longrightarrow> expand_loop n e tab st l i = Some r \<Longrightarrow> expand_loop m e tab st l i = Some r"
  using expand_loop_le expander_leD by blast

section \<open>The names in the table are fixed during a run\<close>

lemma definition_lookup_names:
  "definition_lookup e tab n = Inr (tab', r) \<Longrightarrow> map name tab' = map name tab"
  by (auto simp: definition_lookup_def Let_def hash_store_names split: option.splits if_splits)

lemma definition_lookup_found:
  "definition_lookup e tab n = Inr (tab', Some def) \<Longrightarrow> name def = n \<and> n \<in> name ` set tab"
  by (auto simp: definition_lookup_def Let_def split: option.splits if_splits
      dest: hash_lookup_name hash_lookup_mem)

lemma keeps_namesD:
  "keeps_names rec \<Longrightarrow> rec tab st l i = Some (Inr (tab', l')) \<Longrightarrow> map name tab' = map name tab"
  unfolding keeps_names_def by blast

lemma expand_args_names:
  assumes "keeps_names rec"
  shows "expand_args rec tab st args = Some (Inr (tab', args')) \<Longrightarrow> map name tab' = map name tab"
proof (induction args arbitrary: tab tab' args')
  case Nil
  then show ?case by simp
next
  case (Cons a args)
  from Cons.prems obtain tab1 a1 tab2 args1
    where 1: "rec tab st a 0 = Some (Inr (tab1, a1))"
      and 2: "expand_args rec tab1 st args = Some (Inr (tab2, args1))" and 3: "tab' = tab2"
    by (auto split: option.splits sum.splits prod.splits if_splits)
  from assms 1 have "map name tab1 = map name tab" by (rule keeps_namesD)
  moreover from 2 have "map name tab2 = map name tab1" by (rule Cons.IH)
  ultimately show ?case using 3 by simp
qed

lemma expand_macro_names:
  assumes "keeps_names rec" and "expand_macro rec e tab st def args = Some (Inr (tab', l'))"
  shows "map name tab' = map name tab"
proof -
  note an = expand_args_names [OF assms(1)]
  have kn: "rec t s l i = Some (Inr (t', l'')) \<Longrightarrow> map name t' = map name t" for t s l i t' l''
    using assms(1) by (rule keeps_namesD)
  show ?thesis
    using assms(2) unfolding expand_macro_def
    by (auto split: if_splits sum.splits option.splits prod.splits dest!: an kn)
qed

lemma expand_one_names:
  assumes "keeps_names rec" and "expand_one rec e tab st l i def = Some (Inr (tab', l', i'))"
  shows "map name tab' = map name tab"
proof -
  note mn = expand_macro_names [OF assms(1)]
  show ?thesis
    using assms(2) unfolding expand_one_def
    by (auto split: sum.splits option.splits prod.splits dest!: mn)
qed

lemma expand_body_names:
  assumes "keeps_names rec" and "expand_body rec e tab st l i = Some (Inr (tab', l'))"
  shows "map name tab' = map name tab"
proof -
  note on = expand_one_names [OF assms(1)]
  have kn: "rec t s l i = Some (Inr (t', l'')) \<Longrightarrow> map name t' = map name t" for t s l i t' l''
    using assms(1) by (rule keeps_namesD)
  show ?thesis
    using assms(2) unfolding expand_body_def
    by (auto split: if_splits sum.splits option.splits prod.splits
        dest!: on kn definition_lookup_names)
qed

lemma expand_loop_keeps_names: "keeps_names (expand_loop n e)"
proof (induction n)
  case 0
  then show ?case by (simp add: keeps_names_def)
next
  case (Suc n)
  then show ?case
    unfolding keeps_names_def [of "expand_loop (Suc n) e"]
    using expand_body_names by auto
qed

lemma expand_loop_names:
  "expand_loop n e tab st l i = Some (Inr (tab', l')) \<Longrightarrow> map name tab' = map name tab"
  using expand_loop_keeps_names by (rule keeps_namesD)

section \<open>What the argument reader consumes\<close>

lemma read_arg_loop_splits:
  "read_arg_loop nesting arg list = Inr (a, rest) \<Longrightarrow>
   \<exists>pre. list = pre @ rest \<and>
     (a = arg @ pre \<or> (arg @ pre = [] \<and> a = [basic_token EMPTY_ARG]))"
proof (induction list arbitrary: nesting arg)
  case Nil
  then show ?case by simp
next
  case (Cons t list)
  show ?case
  proof (cases "if nesting \<noteq> 0 then True
      else token t \<noteq> PUNCT (CHR '','') \<and> token t \<noteq> PUNCT (CHR '')'')")
    case False
    with Cons.prems have "rest = t # list"
      and "a = (if length arg = 0 then [basic_token EMPTY_ARG] else arg)"
      by (auto split: if_splits)
    then show ?thesis by auto
  next
    case True
    with Cons.prems obtain k where "read_arg_loop k (arg @ [t]) list = Inr (a, rest)"
      by (auto split: if_splits)
    from Cons.IH [OF this] obtain pre where "list = pre @ rest"
      and "a = (arg @ [t]) @ pre \<or> ((arg @ [t]) @ pre = [] \<and> a = [basic_token EMPTY_ARG])"
      by blast
    then have "t # list = (t # pre) @ rest \<and> a = arg @ (t # pre)" by simp
    then show ?thesis by blast
  qed
qed

lemma read_arg_splits:
  assumes "read_arg list = Inr (a, rest)"
  shows "\<exists>pre. list = pre @ rest \<and> (a = pre \<or> (pre = [] \<and> a = [basic_token EMPTY_ARG]))"
proof -
  from assms have "read_arg_loop 0 [] list = Inr (a, rest)"
    by (simp add: read_arg_def)
  from read_arg_loop_splits [OF this] obtain pre where "list = pre @ rest"
    and "a = [] @ pre \<or> ([] @ pre = [] \<and> a = [basic_token EMPTY_ARG])"
    by blast
  then have "list = pre @ rest \<and> (a = pre \<or> (pre = [] \<and> a = [basic_token EMPTY_ARG]))"
    by simp
  then show ?thesis by (rule exI)
qed

lemma skip_splits: "skip list tk = Inr rest \<Longrightarrow> \<exists>t. list = t # rest \<and> token t = tk"
  by (auto simp: skip_def split: list.splits if_splits)

lemma read_args_loop_splits:
  "read_args_loop k list = Inr (args, rest) \<Longrightarrow>
   \<exists>pre. list = pre @ rest \<and> length args = k \<and>
     set (concat args) \<subseteq> insert (basic_token EMPTY_ARG) (set pre)"
proof (induction k arbitrary: list args)
  case 0
  then show ?case by simp
next
  case (Suc k)
  from Suc.prems obtain arg list1 list2 args1
    where 1: "read_arg list = Inr (arg, list1)"
      and 2: "(if k \<noteq> 0 then skip list1 (PUNCT (CHR '','')) else Inr list1) = Inr list2"
      and 3: "read_args_loop k list2 = Inr (args1, rest)" and 4: "args = arg # args1"
    by (auto split: sum.splits prod.splits)
  from read_arg_splits [OF 1] obtain pre1 where p1: "list = pre1 @ list1"
    and a: "arg = pre1 \<or> (pre1 = [] \<and> arg = [basic_token EMPTY_ARG])"
    by blast
  from 2 obtain pre2 where p2: "list1 = pre2 @ list2"
    by (cases "k \<noteq> 0") (auto dest: skip_splits)
  from Suc.IH [OF 3] obtain pre3 where p3: "list2 = pre3 @ rest" and l: "length args1 = k"
    and s: "set (concat args1) \<subseteq> insert (basic_token EMPTY_ARG) (set pre3)"
    by blast
  have "list = (pre1 @ pre2 @ pre3) @ rest" using p1 p2 p3 by simp
  moreover have "length args = Suc k" using 4 l by simp
  moreover have "set (concat args) \<subseteq> insert (basic_token EMPTY_ARG) (set (pre1 @ pre2 @ pre3))"
    using 4 a s by auto
  ultimately show ?case
    by (intro exI [of _ "pre1 @ pre2 @ pre3"]) simp
qed

lemma read_args_splits:
  assumes "read_args def list = Inr (args, rest)"
  shows "\<exists>pre. list = pre @ rest \<and>
     set (concat args) \<subseteq> insert (basic_token EMPTY_ARG) (set pre) \<and>
     length args = (if type def = FUNCTION_LIKE then params def else 0)"
proof (cases "type def = FUNCTION_LIKE")
  case False
  with assms show ?thesis by (simp add: read_args_def)
next
  case True
  with assms obtain list1 list2
    where 1: "skip list (PUNCT (CHR ''('')) = Inr list1"
      and 2: "read_args_loop (params def) list1 = Inr (args, list2)"
      and 3: "skip list2 (PUNCT (CHR '')'')) = Inr rest"
    by (auto simp: read_args_def split: sum.splits prod.splits)
  from skip_splits [OF 1] obtain t1 where p1: "list = t1 # list1" by blast
  from read_args_loop_splits [OF 2] obtain pre where p2: "list1 = pre @ list2"
    and l: "length args = params def"
    and s: "set (concat args) \<subseteq> insert (basic_token EMPTY_ARG) (set pre)"
    by blast
  from skip_splits [OF 3] obtain t3 where p3: "list2 = t3 # rest" by blast
  have "list = (t1 # pre @ [t3]) @ rest" using p1 p2 p3 by simp
  moreover have "set (concat args) \<subseteq> insert (basic_token EMPTY_ARG) (set (t1 # pre @ [t3]))"
    using s by auto
  ultimately show ?thesis
    using l True by (intro exI [of _ "t1 # pre @ [t3]"]) simp
qed

section \<open>One replacement\<close>

lemma set_leading_whitespace_length [simp]:
  "length (set_leading_whitespace w list) = length list"
  by (simp add: set_leading_whitespace_def)

lemma expand_one_result:
  assumes "expand_one rec e tab st l i def = Some (Inr (tab', l', i'))" and "i < length l"
  shows "\<exists>args endptr expn pre.
     read_args def (drop (i + 1) l) = Inr (args, endptr) \<and>
     drop (i + 1) l = pre @ endptr \<and>
     expand_macro rec e tab st def args = Some (Inr (tab', expn)) \<and>
     l' = take i l @
          (if length expn \<noteq> 0 then set_leading_whitespace (leading_whitespace (l ! i)) expn
           else expn) @ endptr \<and>
     i' = i + length expn"
proof -
  from assms(1) obtain args endptr expn
    where 1: "read_args def (drop (i + 1) l) = Inr (args, endptr)"
      and 2: "expand_macro rec e tab st def args = Some (Inr (tab', expn))"
      and 3: "array_replace_slice e l i (length l - length endptr - i)
                (if length expn \<noteq> 0 then set_leading_whitespace (leading_whitespace (l ! i)) expn
                 else expn) = Inr l'"
      and 4: "i' = i + length expn"
    unfolding expand_one_def by (auto split: sum.splits option.splits prod.splits)
  from read_args_splits [OF 1] obtain pre where pre: "drop (i + 1) l = pre @ endptr"
    by blast
  then have "length l - (i + 1) = length pre + length endptr"
    by (metis length_append length_drop)
  with assms(2) have len: "i + (length l - length endptr - i) = i + 1 + length pre"
    by simp
  have "drop (i + 1 + length pre) l = drop (length pre) (drop (i + 1) l)"
    by (simp add: add.commute)
  also have "\<dots> = endptr" using pre by simp
  finally have d: "drop (i + (length l - length endptr - i)) l = endptr"
    using len by simp
  from 3 have "l' = take i l @
          (if length expn \<noteq> 0 then set_leading_whitespace (leading_whitespace (l ! i)) expn
           else expn) @ drop (i + (length l - length endptr - i)) l"
    by (auto simp: array_replace_slice_def split: if_splits)
  with d 1 2 4 pre show ?thesis by blast
qed

lemma expand_one_remaining:
  assumes "expand_one rec e tab st l i def = Some (Inr (tab', l', i'))" and "i < length l"
  shows "length l' - i' < length l - i"
proof -
  from expand_one_result [OF assms] obtain endptr expn pre
    where pre: "drop (i + 1) l = pre @ endptr"
      and l': "l' = take i l @
          (if length expn \<noteq> 0 then set_leading_whitespace (leading_whitespace (l ! i)) expn
           else expn) @ endptr"
      and i': "i' = i + length expn"
    by blast
  from pre have "length l - (i + 1) = length pre + length endptr"
    by (metis length_append length_drop)
  with assms(2) have "length endptr < length l - i" by simp
  moreover have "length l' - i' = length endptr"
    using l' i' assms(2) by (auto simp: min_def)
  ultimately show ?thesis by simp
qed

section \<open>Every run ends\<close>

lemma is_macro_expanded_iff: "is_macro_expanded st m \<longleftrightarrow> name m \<in> set st"
  by (induction st) (auto simp: str_cmp_def)

lemma enabled_names: "map name tab' = map name tab \<Longrightarrow> enabled tab' st = enabled tab st"
proof -
  assume "map name tab' = map name tab"
  then have "set (map name tab') = set (map name tab)" by simp
  then have "name ` set tab' = name ` set tab" by simp
  then show ?thesis by (simp add: enabled_def)
qed

lemma enabled_push:
  assumes "n \<in> name ` set tab" and "n \<notin> set st"
  shows "enabled tab (st @ [n]) < enabled tab st"
proof -
  have "name ` set tab - set (st @ [n]) \<subset> name ` set tab - set st"
    using assms by auto
  moreover have "finite (name ` set tab - set st)" by simp
  ultimately show ?thesis
    unfolding enabled_def by (rule psubset_card_mono [rotated])
qed

lemma expand_args_converges:
  assumes "\<And>tab' a. map name tab' = map name tab \<Longrightarrow> \<exists>n r. expand_loop n e tab' st a 0 = Some r"
  shows "\<exists>n r. expand_args (expand_loop n e) tab st args = Some r"
  using assms
proof (induction args arbitrary: tab)
  case Nil
  then show ?case by simp
next
  case (Cons a args)
  from Cons.prems [of tab a] obtain n1 r1 where 1: "expand_loop n1 e tab st a 0 = Some r1"
    by auto
  show ?case
  proof (cases r1)
    case (Inl err)
    with 1 have "expand_args (expand_loop n1 e) tab st (a # args) = Some (Inl err)" by simp
    then show ?thesis by blast
  next
    case (Inr p)
    obtain tab1 a1 where p: "p = (tab1, a1)" by (cases p)
    show ?thesis
    proof (cases "length a1 = 0")
      case True
      with 1 Inr p have "expand_args (expand_loop n1 e) tab st (a # args) = Some (Inl Out_of_bounds)"
        by simp
      then show ?thesis by blast
    next
      case False
      from 1 Inr p have names: "map name tab1 = map name tab"
        by (auto dest: expand_loop_names)
      have "\<exists>n r. expand_args (expand_loop n e) tab1 st args = Some r"
      proof (rule Cons.IH)
        fix tab' :: hash_table and a'
        assume "map name tab' = map name tab1"
        with names have "map name tab' = map name tab" by simp
        then show "\<exists>n r. expand_loop n e tab' st a' 0 = Some r" by (rule Cons.prems)
      qed
      then obtain n2 r2 where 2: "expand_args (expand_loop n2 e) tab1 st args = Some r2"
        by auto
      let ?N = "max n1 n2"
      have a: "expand_loop ?N e tab st a 0 = Some (Inr (tab1, a1))"
        using 1 Inr p by (auto intro: expand_loop_mono [of n1])
      have b: "expand_args (expand_loop ?N e) tab1 st args = Some r2"
        using 2 by (rule expand_args_mono [OF expand_loop_le, rotated]) simp
      have "\<exists>r. expand_args (expand_loop ?N e) tab st (a # args) = Some r"
        using a b False by (cases r2) auto
      then show ?thesis by blast
    qed
  qed
qed

lemma expand_macro_converges:
  assumes "\<And>tab' a. map name tab' = map name tab \<Longrightarrow>
             \<exists>n r. expand_loop n e tab' (st @ [name def]) a 0 = Some r"
  shows "\<exists>n r. expand_macro (expand_loop n e) e tab st def args = Some r"
proof -
  let ?st = "st @ [name def]"
  let ?tail = "\<lambda>n tab1 strings args1.
     (case substitute e def strings args1 (replacement def) of
        Inl err \<Rightarrow> Some (Inl err)
      | Inr list \<Rightarrow>
          (case expand_paste_operators e list of
             Inl err \<Rightarrow> Some (Inl err)
           | Inr list1 \<Rightarrow> expand_loop n e tab1 ?st list1 0))"
  have tail: "\<exists>n r. n0 \<le> n \<and> ?tail n tab1 strings args1 = Some r"
    if names: "map name tab1 = map name tab" for n0 and tab1 :: hash_table and strings args1
  proof (cases "substitute e def strings args1 (replacement def)")
    case (Inl err)
    then have "n0 \<le> n0 \<and> ?tail n0 tab1 strings args1 = Some (Inl err)" by simp
    then show ?thesis by blast
  next
    case (Inr list)
    show ?thesis
    proof (cases "expand_paste_operators e list")
      case (Inl err)
      with Inr have "n0 \<le> n0 \<and> ?tail n0 tab1 strings args1 = Some (Inl err)" by simp
      then show ?thesis by blast
    next
      case list1: (Inr list1)
      from assms [OF names, of list1] obtain n2 r2
        where 2: "expand_loop n2 e tab1 ?st list1 0 = Some r2"
        by auto
      then have "expand_loop (max n0 n2) e tab1 ?st list1 0 = Some r2"
        by (rule expand_loop_mono [rotated]) simp
      with Inr list1 have "n0 \<le> max n0 n2 \<and> ?tail (max n0 n2) tab1 strings args1 = Some r2"
        by simp
      then show ?thesis by blast
    qed
  qed
  show ?thesis
  proof (cases "params def \<noteq> 0")
    case False
    from tail [of tab 0 "[]" args] obtain n r where "?tail n tab [] args = Some r"
      by auto
    with False have "expand_macro (expand_loop n e) e tab st def args = Some r"
      by (simp add: expand_macro_def)
    then show ?thesis by blast
  next
    case True
    show ?thesis
    proof (cases "length args < params def")
      case short: True
      with True have "expand_macro (expand_loop 0 e) e tab st def args = Some (Inl Out_of_bounds)"
        by (simp add: expand_macro_def)
      then show ?thesis by blast
    next
      case long: False
      let ?S = "if stringify def then stringify_args e (take (params def) args) else Inr []"
      show ?thesis
      proof (cases ?S)
        case (Inl err)
        with True long
        have "expand_macro (expand_loop 0 e) e tab st def args = Some (Inl err)"
          by (simp add: expand_macro_def)
        then show ?thesis by blast
      next
        case (Inr strings)
        from expand_args_converges [of tab e ?st "take (params def) args"] assms
        obtain n1 r1
          where 1: "expand_args (expand_loop n1 e) tab ?st (take (params def) args) = Some r1"
          by blast
        show ?thesis
        proof (cases r1)
          case err: (Inl err)
          with True long Inr 1
          have "expand_macro (expand_loop n1 e) e tab st def args = Some (Inl err)"
            by (simp add: expand_macro_def)
          then show ?thesis by blast
        next
          case ok: (Inr p)
          obtain tab1 args1 where p: "p = (tab1, args1)" by (cases p)
          from 1 ok p have names: "map name tab1 = map name tab"
            by (auto dest: expand_args_names [OF expand_loop_keeps_names])
          from tail [OF names, of n1 strings args1] obtain n r
            where n: "n1 \<le> n" and t: "?tail n tab1 strings args1 = Some r"
            by auto
          from 1 ok p
          have "expand_args (expand_loop n e) tab ?st (take (params def) args)
                  = Some (Inr (tab1, args1))"
            using expand_args_mono [OF expand_loop_le [OF n]] by simp
          with True long Inr t
          have "expand_macro (expand_loop n e) e tab st def args = Some r"
            by (simp add: expand_macro_def)
          then show ?thesis by blast
        qed
      qed
    qed
  qed
qed

lemma expand_one_converges:
  assumes "\<And>tab' a. map name tab' = map name tab \<Longrightarrow>
             \<exists>n r. expand_loop n e tab' (st @ [name def]) a 0 = Some r"
  shows "\<exists>n r. expand_one (expand_loop n e) e tab st l i def = Some r"
proof (cases "read_args def (drop (i + 1) l)")
  case (Inl err)
  then have "expand_one (expand_loop 0 e) e tab st l i def = Some (Inl err)"
    by (simp add: expand_one_def)
  then show ?thesis by blast
next
  case (Inr p)
  obtain args endptr where p: "p = (args, endptr)" by (cases p)
  from expand_macro_converges [of tab e st "def" args] assms obtain n r1
    where 1: "expand_macro (expand_loop n e) e tab st def args = Some r1"
    by blast
  have "\<exists>r. expand_one (expand_loop n e) e tab st l i def = Some r"
    using Inr p 1 by (cases r1) (auto simp: expand_one_def split: sum.splits)
  then show ?thesis by blast
qed

lemma expand_loop_converges: "\<exists>n r. expand_loop n e tab st l i = Some r"
proof (induction "enabled tab st" arbitrary: tab st l i rule: less_induct)
  case less
  note outer = less.hyps
  have inner: "\<exists>n r. expand_loop n e tab1 st l i = Some r"
    if "map name tab1 = map name tab" for tab1 :: hash_table and l i
    using that
  proof (induction "length l - i" arbitrary: tab1 l i rule: less_induct)
    case less
    note names = less.prems
    note inner = less.hyps
    show ?case
    proof (cases "i < length l")
      case False
      then have "expand_loop (Suc 0) e tab1 st l i = Some (Inr (tab1, l))"
        by (simp add: expand_body_def)
      then show ?thesis by blast
    next
      case True
      have advance: "\<exists>n r. expand_loop n e tab2 st l (i + 1) = Some r"
        if "map name tab2 = map name tab" for tab2 :: hash_table
        using True that by (intro inner) simp_all
      show ?thesis
      proof (cases "token (l ! i) = IDENTIFIER")
        case False
        from advance [OF names] obtain n r where "expand_loop n e tab1 st l (i + 1) = Some r"
          by auto
        with True False have "expand_loop (Suc n) e tab1 st l i = Some r"
          by (simp add: expand_body_def)
        then show ?thesis by blast
      next
        case ident: True
        show ?thesis
        proof (cases "definition_lookup e tab1 (d_string (l ! i))")
          case (Inl err)
          with True ident have "expand_loop (Suc 0) e tab1 st l i = Some (Inl err)"
            by (simp add: expand_body_def)
          then show ?thesis by blast
        next
          case (Inr p)
          obtain tabA ro where p: "p = (tabA, ro)" by (cases p)
          from Inr p have namesA: "map name tabA = map name tab"
            using definition_lookup_names names by fastforce
          from advance [OF namesA] obtain na ra
            where adv: "expand_loop na e tabA st l (i + 1) = Some ra"
            by auto
          show ?thesis
          proof (cases ro)
            case None
            with True ident Inr p adv have "expand_loop (Suc na) e tab1 st l i = Some ra"
              by (simp add: expand_body_def)
            then show ?thesis by blast
          next
            case (Some def)
            show ?thesis
            proof (cases "is_macro_expanded st def")
              case True
              with \<open>i < length l\<close> ident Inr p adv Some
              have "expand_loop (Suc na) e tab1 st l i = Some ra"
                by (simp add: expand_body_def)
              then show ?thesis by blast
            next
              case enabled: False
              show ?thesis
              proof (cases "type def = FUNCTION_LIKE \<and> \<not> i + 1 < length l")
                case True
                with \<open>i < length l\<close> ident Inr p Some enabled
                have "expand_loop (Suc 0) e tab1 st l i = Some (Inl Out_of_bounds)"
                  by (simp add: expand_body_def)
                then show ?thesis by blast
              next
                case inb: False
                show ?thesis
                proof (cases "type def = FUNCTION_LIKE \<and> token (l ! (i + 1)) \<noteq> PUNCT (CHR ''('')")
                  case True
                  with \<open>i < length l\<close> ident Inr p Some enabled inb adv
                  have "expand_loop (Suc na) e tab1 st l i = Some ra"
                    by (simp add: expand_body_def)
                  then show ?thesis by blast
                next
                  case invoke: False
                  from Inr p Some have "name def \<in> name ` set tab1"
                    using definition_lookup_found by fastforce
                  then have mem: "name def \<in> name ` set tab"
                    using names by (metis set_map)
                  from enabled have "name def \<notin> set st"
                    by (simp add: is_macro_expanded_iff)
                  with mem have smaller: "enabled tab (st @ [name def]) < enabled tab st"
                    by (rule enabled_push)
                  have nested: "\<exists>n r. expand_loop n e tab' (st @ [name def]) a 0 = Some r"
                    if "map name tab' = map name tabA" for tab' :: hash_table and a
                  proof (rule outer)
                    from that namesA have "map name tab' = map name tab" by simp
                    then have "enabled tab' (st @ [name def]) = enabled tab (st @ [name def])"
                      by (rule enabled_names)
                    with smaller show "enabled tab' (st @ [name def]) < enabled tab st"
                      by simp
                  qed
                  from expand_one_converges [of tabA e st "def" l i] nested obtain n1 r1
                    where 1: "expand_one (expand_loop n1 e) e tabA st l i def = Some r1"
                    by blast
                  show ?thesis
                  proof (cases r1)
                    case (Inl err)
                    with \<open>i < length l\<close> ident Inr p Some enabled inb invoke 1
                    have "expand_loop (Suc n1) e tab1 st l i = Some (Inl err)"
                      by (auto simp: expand_body_def)
                    then show ?thesis by blast
                  next
                    case res: (Inr q)
                    obtain tab2 l' i' where q: "q = (tab2, l', i')" by (cases q)
                    from 1 res q have one: "expand_one (expand_loop n1 e) e tabA st l i def
                        = Some (Inr (tab2, l', i'))"
                      by simp
                    from one have "map name tab2 = map name tabA"
                      by (rule expand_one_names [OF expand_loop_keeps_names])
                    with namesA have names2: "map name tab2 = map name tab" by simp
                    from one \<open>i < length l\<close> have "length l' - i' < length l - i"
                      by (rule expand_one_remaining)
                    from inner [OF this names2] obtain n2 r2
                      where 2: "expand_loop n2 e tab2 st l' i' = Some r2"
                      by auto
                    let ?N = "max n1 n2"
                    have a: "expand_one (expand_loop ?N e) e tabA st l i def
                        = Some (Inr (tab2, l', i'))"
                      using one by (rule expand_one_mono [OF expand_loop_le, rotated]) simp
                    have b: "expand_loop ?N e tab2 st l' i' = Some r2"
                      using 2 by (rule expand_loop_mono [rotated]) simp
                    from \<open>i < length l\<close> ident Inr p Some enabled inb invoke a b
                    have "expand_loop (Suc ?N) e tab1 st l i = Some r2"
                      by (auto simp: expand_body_def)
                    then show ?thesis by blast
                  qed
                qed
              qed
            qed
          qed
        qed
      qed
    qed
  qed
  show ?case by (rule inner) simp
qed

text \<open>
  C3. \<^verbatim>\<open>expand\<close> returns for every array, every macro table and every stack: enough
  fuel gives a result. Each nested call runs with one more name of the table on the stack,
  and a name on the stack is not expanded again. With only \<^verbatim>\<open>#define F F\<close> defined, the
  one-token array \<^verbatim>\<open>F\<close> comes back unchanged.
\<close>

theorem expand_terminates:
  "(\<exists>n r. expand n e tab expand_stack list = Some r) \<and>
   is_macro_expanded (expand_stack @ [name def]) def \<and>
   define_macro [] (new_macro ''F'' OBJECT_LIKE 0 [ident_token ''F'']) = Inr table_F \<and>
   expand 3 e table_F [] [ident_token ''F''] = Some (Inr (table_F, [ident_token ''F'']))"
proof (intro conjI)
  show "\<exists>n r. expand n e tab expand_stack list = Some r"
    unfolding expand_def by (rule expand_loop_converges)
  show "is_macro_expanded (expand_stack @ [name def]) def"
    by (simp add: is_macro_expanded_iff)
  show "define_macro [] (new_macro ''F'' OBJECT_LIKE 0 [ident_token ''F'']) = Inr table_F"
    by code_simp
  let ?F = "new_macro ''F'' OBJECT_LIKE 0 [ident_token ''F'']"
  have look: "definition_lookup e table_F ''F'' = Inr (table_F, Some ?F)"
    by (simp add: definition_lookup_def hash_lookup_def table_F_def new_macro_def)
  have f: "token (ident_token ''F'') = IDENTIFIER" "d_string (ident_token ''F'') = ''F''"
    "name ?F = ''F''" "type ?F = OBJECT_LIKE" "params ?F = 0"
    "replacement ?F = [ident_token ''F'']"
    by (simp_all add: ident_token_def basic_token_def new_macro_def)
  have inner: "expand_loop (Suc (Suc 0)) e table_F [''F''] [ident_token ''F''] 0
      = Some (Inr (table_F, [ident_token ''F'']))"
    using look f by (simp add: expand_body_def str_cmp_def)
  have macro: "expand_macro (expand_loop (Suc (Suc 0)) e) e table_F [] ?F []
      = Some (Inr (table_F, [ident_token ''F'']))"
    using f inner by (simp add: expand_macro_def expand_paste_operators_def del: expand_loop.simps)
  have one: "expand_one (expand_loop (Suc (Suc 0)) e) e table_F [] [ident_token ''F''] 0 ?F
      = Some (Inr (table_F, [ident_token ''F''], Suc 0))"
    using f macro
    by (simp add: expand_one_def read_args_def array_replace_slice_def
        set_leading_whitespace_def del: expand_loop.simps)
  have last: "expand_loop (Suc (Suc 0)) e table_F [] [ident_token ''F''] (Suc 0)
      = Some (Inr (table_F, [ident_token ''F'']))"
    by (simp add: expand_body_def)
  have "expand_loop (Suc (Suc (Suc 0))) e table_F [] [ident_token ''F''] 0
      = Some (Inr (table_F, [ident_token ''F'']))"
    unfolding expand_loop.simps(2) [of "Suc (Suc 0)"]
    using look f one last by (simp add: expand_body_def del: expand_loop.simps)
  then show "expand 3 e table_F [] [ident_token ''F''] = Some (Inr (table_F, [ident_token ''F'']))"
    by (simp add: expand_def numeral_3_eq_3 del: expand_loop.simps)
qed

theorem expand_terminates_witness:
  "(\<exists>n r. expand n example_env table_g_f []
      [ident_token ''g'', punctuator CHR ''('', ident_token ''1'', punctuator CHR '')'']
      = Some r) \<and>
   expand 3 example_env table_F [] [ident_token ''F'']
     = Some (Inr (table_F, [ident_token ''F'']))"
  using expand_terminates [of example_env table_g_f "[]"
      "[ident_token ''g'', punctuator CHR ''('', ident_token ''1'', punctuator CHR '')'']"
      "new_macro ''F'' OBJECT_LIKE 0 [ident_token ''F'']"]
  by blast

section \<open>Where the scan goes on after a replacement\<close>

lemma expand_macro_rescan:
  assumes "expand_macro rec e tab st def args = Some (Inr (tab', expn))"
  shows "\<exists>tabm listm. rec tabm (st @ [name def]) listm 0 = Some (Inr (tab', expn))"
  using assms unfolding expand_macro_def
  by (auto split: if_splits sum.splits option.splits prod.splits)

text \<open>
  C1, as the claim states it: after a replacement the scan goes on at the start of the
  spliced region. With \<^verbatim>\<open>#define f(x) f\<close>, replacing \<^verbatim>\<open>f(1)\<close> at index 0 of
  \<^verbatim>\<open>f(1)(2)\<close> leaves \<^verbatim>\<open>f(2)\<close> and the scan goes on at index 1, behind the \<^verbatim>\<open>f\<close> that
  the expansion put there: the invocation \<^verbatim>\<open>f(2)\<close>, formed by the end of the expansion
  and the tokens that followed, stays in the result although \<^verbatim>\<open>f\<close> is defined and the
  stack is empty again.
\<close>

theorem scan_not_at_splice_start:
  "\<not> (\<forall>rec e tab st l i def tab' l' i'.
        expand_one rec e tab st l i def = Some (Inr (tab', l', i')) \<longrightarrow> i' = i) \<and>
   expand 8 example_env table_f_self [] call_twice = Some (Inr (table_f_self, call_left)) \<and>
   hash_lookup table_f_self (d_string (call_left ! 0)) = Some (table_f_self ! 0) \<and>
   token (call_left ! 1) = PUNCT (CHR ''('')"
proof (intro conjI)
  have "expand_one (expand_loop 3 example_env) example_env table_f_self [] call_twice 0
          (table_f_self ! 0) = Some (Inr (table_f_self, call_left, 1))"
    by code_simp
  then show "\<not> (\<forall>rec e tab st l i def tab' l' i'.
        expand_one rec e tab st l i def = Some (Inr (tab', l', i')) \<longrightarrow> i' = i)"
    by (metis zero_neq_one)
  show "expand 8 example_env table_f_self [] call_twice = Some (Inr (table_f_self, call_left))"
    by code_simp
  show "hash_lookup table_f_self (d_string (call_left ! 0)) = Some (table_f_self ! 0)"
    by code_simp
  show "token (call_left ! 1) = PUNCT (CHR ''('')"
    by code_simp
qed

text \<open>
  C1, amended. When the loop of \<^verbatim>\<open>expand\<close> replaces the invocation at index \<open>i\<close>, the
  array becomes the tokens before \<open>i\<close>, the expansion, and the tokens behind the
  invocation, and the scan goes on behind the expansion, at \<open>i\<close> plus its length: what is
  left to scan is exactly what followed the invocation. The expansion itself is the result
  of a rescan inside \<^verbatim>\<open>expand_macro\<close>, of the substituted list alone and with the macro's
  name on the stack.
\<close>

theorem scan_continues_behind_expansion:
  assumes "i < length list" and "token (list ! i) = IDENTIFIER"
    and "definition_lookup e tab (d_string (list ! i)) = Inr (tab1, Some def)"
    and "\<not> is_macro_expanded st def"
    and "type def \<noteq> FUNCTION_LIKE \<or>
           (i + 1 < length list \<and> token (list ! (i + 1)) = PUNCT (CHR ''(''))"
    and "expand_one (expand_loop n e) e tab1 st list i def = Some (Inr (tab2, list', i'))"
  shows "expand_loop (Suc n) e tab st list i = expand_loop n e tab2 st list' i' \<and>
    (\<exists>args endptr expn tabm listm.
       read_args def (drop (i + 1) list) = Inr (args, endptr) \<and>
       expand_loop n e tabm (st @ [name def]) listm 0 = Some (Inr (tab2, expn)) \<and>
       list' = take i list @
          (if length expn \<noteq> 0 then set_leading_whitespace (leading_whitespace (list ! i)) expn
           else expn) @ endptr \<and>
       i' = i + length expn \<and>
       drop i' list' = endptr)"
proof
  show "expand_loop (Suc n) e tab st list i = expand_loop n e tab2 st list' i'"
    using assms by (auto simp: expand_body_def)
  from expand_one_result [OF assms(6) assms(1)] obtain args endptr expn
    where 1: "read_args def (drop (i + 1) list) = Inr (args, endptr)"
      and 2: "expand_macro (expand_loop n e) e tab1 st def args = Some (Inr (tab2, expn))"
      and 3: "list' = take i list @
          (if length expn \<noteq> 0 then set_leading_whitespace (leading_whitespace (list ! i)) expn
           else expn) @ endptr"
      and 4: "i' = i + length expn"
    by blast
  from expand_macro_rescan [OF 2] obtain tabm listm
    where 5: "expand_loop n e tabm (st @ [name def]) listm 0 = Some (Inr (tab2, expn))"
    by blast
  have 6: "drop i' list' = endptr"
    using 3 4 assms(1) by (simp add: min_def)
  from 1 3 4 5 6 show "\<exists>args endptr expn tabm listm.
       read_args def (drop (i + 1) list) = Inr (args, endptr) \<and>
       expand_loop n e tabm (st @ [name def]) listm 0 = Some (Inr (tab2, expn)) \<and>
       list' = take i list @
          (if length expn \<noteq> 0 then set_leading_whitespace (leading_whitespace (list ! i)) expn
           else expn) @ endptr \<and>
       i' = i + length expn \<and>
       drop i' list' = endptr"
    by blast
qed

theorem scan_continues_behind_expansion_witness:
  "expand_loop (Suc 3) example_env table_f_self [] call_twice 0
     = expand_loop 3 example_env table_f_self [] call_left 1 \<and>
   (\<exists>expn tabm listm.
       expand_loop 3 example_env tabm [''f''] listm 0 = Some (Inr (table_f_self, expn)) \<and>
       call_left = take 0 call_twice @
          (if length expn \<noteq> 0
           then set_leading_whitespace (leading_whitespace (call_twice ! 0)) expn
           else expn) @ drop 1 call_left \<and>
       1 = 0 + length expn)"
proof -
  have h: "0 < length call_twice" "token (call_twice ! 0) = IDENTIFIER"
    "definition_lookup example_env table_f_self (d_string (call_twice ! 0))
       = Inr (table_f_self, Some (table_f_self ! 0))"
    "\<not> is_macro_expanded [] (table_f_self ! 0)"
    "type (table_f_self ! 0) \<noteq> FUNCTION_LIKE \<or>
       (0 + 1 < length call_twice \<and> token (call_twice ! (0 + 1)) = PUNCT (CHR ''(''))"
    "expand_one (expand_loop 3 example_env) example_env table_f_self [] call_twice 0
       (table_f_self ! 0) = Some (Inr (table_f_self, call_left, 1))"
    by code_simp+
  have n: "[] @ [name (table_f_self ! 0)] = [''f'']"
    by code_simp
  from scan_continues_behind_expansion [OF h] n show ?thesis
    by (elim conjE exE) (intro conjI exI, simp_all)
qed

section \<open>Placeholders never reach the output\<close>

lemma param_free_simps [simp]:
  "param_free []"
  "param_free (t # ts) \<longleftrightarrow> token t \<noteq> PARAM \<and> param_free ts"
  "param_free (xs @ ys) \<longleftrightarrow> param_free xs \<and> param_free ys"
  by (auto simp: param_free_def)

lemma param_free_subset: "set xs \<subseteq> set ys \<Longrightarrow> param_free ys \<Longrightarrow> param_free xs"
  by (auto simp: param_free_def)

lemma param_free_nth:
  assumes "param_free xs" and "k < length xs"
  shows "token (xs ! k) \<noteq> PARAM"
proof -
  from assms(2) have "xs ! k \<in> set xs" by simp
  with assms(1) show ?thesis unfolding param_free_def by (metis imageI)
qed

lemma param_free_update:
  "param_free xs \<Longrightarrow> token v \<noteq> PARAM \<Longrightarrow> param_free (xs[k := v])"
  using set_update_subset_insert [of xs k v] by (auto simp: param_free_def)

lemma param_free_take: "param_free xs \<Longrightarrow> param_free (take k xs)"
  by (rule param_free_subset [OF set_take_subset])

lemma param_free_drop: "param_free xs \<Longrightarrow> param_free (drop k xs)"
  by (rule param_free_subset [OF set_drop_subset])

lemma param_free_concat: "param_free (concat xss) \<longleftrightarrow> (\<forall>xs \<in> set xss. param_free xs)"
  by (induction xss) auto

lemma param_free_set_leading_whitespace:
  "param_free xs \<Longrightarrow> param_free (set_leading_whitespace w xs)"
  by (cases xs) (simp_all add: set_leading_whitespace_def)

lemma read_args_param_free:
  assumes "read_args def list = Inr (args, rest)" and "param_free list"
  shows "param_free (concat args) \<and> param_free rest"
proof -
  from read_args_splits [OF assms(1)] obtain pre where l: "list = pre @ rest"
    and s: "set (concat args) \<subseteq> insert (basic_token EMPTY_ARG) (set pre)"
    by blast
  from l assms(2) have p: "param_free pre" "param_free rest" by simp_all
  have "param_free (basic_token EMPTY_ARG # pre)"
    using p by (simp add: basic_token_def)
  moreover from s have "set (concat args) \<subseteq> set (basic_token EMPTY_ARG # pre)"
    by simp
  ultimately have "param_free (concat args)"
    by (rule param_free_subset [rotated])
  with p show ?thesis by simp
qed

lemma stringify_list_token: "stringify_list e list = Inr t \<Longrightarrow> token t = STRING"
  by (auto simp: stringify_list_def string_token_def split: list.splits if_splits sum.splits)

lemma stringify_args_param_free: "stringify_args e args = Inr strings \<Longrightarrow> param_free strings"
proof (induction args arbitrary: strings)
  case Nil
  then show ?case by simp
next
  case (Cons a args)
  then show ?case
    by (auto split: sum.splits dest!: stringify_list_token)
qed

lemma expand_args_param_free:
  assumes "keeps_param_free rec"
  shows "expand_args rec tab st args = Some (Inr (tab', args')) \<Longrightarrow> param_free (concat args)
     \<Longrightarrow> param_free (concat args')"
proof (induction args arbitrary: tab tab' args')
  case Nil
  then show ?case by simp
next
  case (Cons a args)
  from Cons.prems(1) obtain tab1 a1 tab2 args1
    where 1: "rec tab st a 0 = Some (Inr (tab1, a1))"
      and 2: "expand_args rec tab1 st args = Some (Inr (tab2, args1))"
      and 3: "args' = (if leading_whitespace (a1 ! 0) = 0 then set_leading_whitespace 1 a1
                       else a1) # args1"
    by (auto split: option.splits sum.splits prod.splits if_splits)
  from Cons.prems(2) have pa: "param_free a" "param_free (concat args)" by simp_all
  from assms pa(1) 1 have "param_free a1"
    unfolding keeps_param_free_def by blast
  moreover from 2 pa(2) have "param_free (concat args1)" by (rule Cons.IH)
  ultimately show ?case
    using 3 by (simp add: param_free_set_leading_whitespace)
qed

lemma substitute_param_free:
  "substitute e def strings args repl = Inr list \<Longrightarrow> param_free strings \<Longrightarrow>
   param_free (concat args) \<Longrightarrow> param_free list"
proof (induction e "def" strings args repl arbitrary: list rule: substitute.induct)
  case (1 e "def" strings args)
  then show ?case by simp
next
  case (2 e "def" strings args t ts)
  show ?case
  proof (cases "token t = PARAM")
    case True
    with "2.prems"(1) obtain rest
      where r: "substitute e def strings args ts = Inr rest"
        and k: "0 \<le> param_index t" "nat (param_index t) < length args"
        and l: "list = args ! nat (param_index t) @ rest"
      by (auto split: if_splits sum.splits)
    from True r "2.prems"(1) have "param_free rest"
      by (intro "2.IH"(1) [OF True _ _ r "2.prems"(2,3)]) (auto split: if_splits)
    moreover have "param_free (args ! nat (param_index t))"
      using "2.prems"(3) k by (simp add: param_free_concat)
    ultimately show ?thesis using l by simp
  next
    case False
    show ?thesis
    proof (cases "token t = PUNCT (CHR ''#'') \<and> ts \<noteq> [] \<and> token (hd ts) = PARAM")
      case True
      with False "2.prems"(1) obtain rest
        where r: "substitute e def strings args (tl ts) = Inr rest"
          and k: "nat (param_index (hd ts)) < length strings"
          and l: "list = strings ! nat (param_index (hd ts)) # rest"
        by (auto split: if_splits sum.splits)
      from False True r "2.prems"(1) have "param_free rest"
        by (intro "2.IH"(2) [OF False True _ _ r "2.prems"(2,3)]) (auto split: if_splits)
      moreover have "token (strings ! nat (param_index (hd ts))) \<noteq> PARAM"
        using "2.prems"(2) k by (rule param_free_nth)
      ultimately show ?thesis using l by simp
    next
      case other: False
      with False "2.prems"(1) obtain rest
        where r: "substitute e def strings args ts = Inr rest" and l: "list = t # rest"
        by (auto split: if_splits sum.splits)
      from "2.IH"(3) [OF False other r "2.prems"(2,3)] False l show ?thesis by simp
    qed
  qed
qed

lemma paste_param_free:
  assumes "\<forall>s. token (fst (tokenize e s)) \<noteq> PARAM"
    and "paste e left right = Inr p" and "token left \<noteq> PARAM" and "token right \<noteq> PARAM"
  shows "token p \<noteq> PARAM"
proof -
  have "token (fst (tokenize e (tokstr e left @ tokstr e right))) \<noteq> PARAM"
    using assms(1) by blast
  with assms(2-4) show ?thesis
    by (auto simp: paste_def split: if_splits prod.splits)
qed

lemma paste_loop_param_free:
  "paste_loop e list i j = Inr (list', i') \<Longrightarrow> \<forall>s. token (fst (tokenize e s)) \<noteq> PARAM \<Longrightarrow>
   param_free list \<Longrightarrow> param_free list'"
proof (induction e list i j rule: paste_loop.induct)
  case (1 e list i j)
  note tk = "1.prems"(2)
  show ?case
  proof (cases "j < length list")
    case False
    with "1.prems" show ?thesis by (simp add: paste_loop.simps)
  next
    case True
    show ?thesis
    proof (cases "token (list ! j) = TOKEN_PASTE")
      case paste: True
      from True paste "1.prems"(1) have ib: "unat i < length list" and jb: "j + 1 < length list"
        by (auto simp: paste_loop.simps [of e list i j] split: if_splits)
      show ?thesis
      proof (cases "token (list ! unat i) = EMPTY_ARG \<and> token (list ! (j + 1)) = EMPTY_ARG")
        case both: True
        with True paste ib jb "1.prems"(1)
        have "paste_loop e list (i - 1) (j + 1 + 1) = Inr (list', i')"
          by (simp add: paste_loop.simps [of e list i j] split: if_splits)
        then show ?thesis
          using True paste ib jb both "1.prems"(3) "1.IH"(1) tk by simp
      next
        case one: False
        with True paste ib jb "1.prems"(1) obtain p
          where p: "paste e (list ! unat i) (list ! (j + 1)) = Inr p"
            and r: "paste_loop e (list[unat i := p]) i (j + 1 + 1) = Inr (list', i')"
          by (auto simp: paste_loop.simps [of e list i j] split: if_splits sum.splits)
        have "token (list ! unat i) \<noteq> PARAM" and "token (list ! (j + 1)) \<noteq> PARAM"
          using param_free_nth [OF "1.prems"(3) ib] param_free_nth [OF "1.prems"(3) jb]
          by simp_all
        with tk p have "token p \<noteq> PARAM"
          by (rule paste_param_free)
        with "1.prems"(3) have "param_free (list[unat i := p])"
          by (rule param_free_update)
        with r show ?thesis
          using True paste ib jb one p "1.IH"(2) tk by simp
      qed
    next
      case copy: False
      show ?thesis
      proof (cases "token (list ! j) \<noteq> EMPTY_ARG")
        case keep: True
        have ok: "\<not> (\<not> unat i < length list \<and> \<not> ndebug e)"
          using True "1.prems"(1) by (auto simp: paste_loop.simps [of e list i j] split: if_splits)
        show ?thesis
        proof (cases "unat i < j - 1")
          case move: True
          with True copy keep ok "1.prems"(1)
          have r: "paste_loop e (list[unat (i + 1) := list ! j]) (i + 1) (j + 1) = Inr (list', i')"
            by (simp add: paste_loop.simps [of e list i j] split: if_splits)
          have "token (list ! j) \<noteq> PARAM"
            using "1.prems"(3) True by (rule param_free_nth)
          with "1.prems"(3) have "param_free (list[unat (i + 1) := list ! j])"
            by (rule param_free_update)
          with r show ?thesis
            using True copy keep ok move "1.IH"(3) tk by simp
        next
          case stay: False
          with True copy keep ok "1.prems"(1)
          have r: "paste_loop e list (i + 1) (j + 1) = Inr (list', i')"
            by (simp add: paste_loop.simps [of e list i j] split: if_splits)
          then show ?thesis
            using True copy keep ok stay "1.prems"(3) "1.IH"(4) tk by simp
        qed
      next
        case drop: False
        have ok: "\<not> (\<not> unat i < length list \<and> \<not> ndebug e)"
          using True "1.prems"(1) by (auto simp: paste_loop.simps [of e list i j] split: if_splits)
        from True copy drop ok "1.prems"(1)
        have r: "paste_loop e list i (j + 1) = Inr (list', i')"
          by (simp add: paste_loop.simps [of e list i j] split: if_splits)
        then show ?thesis
          using True copy drop ok "1.prems"(3) "1.IH"(5) tk by simp
      qed
    qed
  qed
qed

lemma expand_paste_operators_param_free:
  assumes "\<forall>s. token (fst (tokenize e s)) \<noteq> PARAM"
    and "expand_paste_operators e list = Inr list'" and "param_free list"
  shows "param_free list'"
  using assms paste_loop_param_free [of e list 0 1]
  by (auto simp: expand_paste_operators_def split: if_splits sum.splits prod.splits
      intro: param_free_take)

lemma keeps_param_freeD:
  "keeps_param_free rec \<Longrightarrow> rec tab st l i = Some (Inr (tab', l')) \<Longrightarrow> param_free l \<Longrightarrow>
   param_free l'"
  unfolding keeps_param_free_def by blast

lemma expand_macro_param_free:
  assumes "\<forall>s. token (fst (tokenize e s)) \<noteq> PARAM" and "keeps_param_free rec"
    and "expand_macro rec e tab st def args = Some (Inr (tab', l'))"
    and "param_free (concat args)"
  shows "param_free l'"
proof -
  have tail: "param_free l'"
    if s: "substitute e def strings args1 (replacement def) = Inr list"
      and p: "expand_paste_operators e list = Inr list1"
      and r: "rec tab1 (st @ [name def]) list1 0 = Some (Inr (tab', l'))"
      and ps: "param_free strings" and pa: "param_free (concat args1)"
    for strings args1 list list1 tab1
  proof -
    from s ps pa have "param_free list" by (rule substitute_param_free)
    with assms(1) p have "param_free list1" by (rule expand_paste_operators_param_free)
    with assms(2) r show ?thesis by (rule keeps_param_freeD)
  qed
  show ?thesis
  proof (cases "params def \<noteq> 0")
    case False
    with assms(3) obtain list list1
      where "substitute e def [] args (replacement def) = Inr list"
        and "expand_paste_operators e list = Inr list1"
        and "rec tab (st @ [name def]) list1 0 = Some (Inr (tab', l'))"
      unfolding expand_macro_def by (auto split: sum.splits)
    then show ?thesis using assms(4) by (intro tail [of "[]" args list list1 tab]) simp_all
  next
    case True
    with assms(3) obtain strings tab1 args1 list list1
      where st: "(if stringify def then stringify_args e (take (params def) args) else Inr [])
                   = Inr strings"
        and ea: "expand_args rec tab (st @ [name def]) (take (params def) args)
                   = Some (Inr (tab1, args1))"
        and s: "substitute e def strings args1 (replacement def) = Inr list"
        and p: "expand_paste_operators e list = Inr list1"
        and r: "rec tab1 (st @ [name def]) list1 0 = Some (Inr (tab', l'))"
      unfolding expand_macro_def
      by (auto split: if_splits sum.splits option.splits prod.splits)
    from st have ps: "param_free strings"
      by (auto split: if_splits dest: stringify_args_param_free)
    have "set (concat (take (params def) args)) \<subseteq> set (concat args)"
      using set_take_subset [of "params def" args] by auto
    then have "param_free (concat (take (params def) args))"
      using assms(4) by (rule param_free_subset)
    with ea have "param_free (concat args1)"
      by (rule expand_args_param_free [OF assms(2)])
    with s p r ps show ?thesis by (intro tail)
  qed
qed

lemma expand_one_param_free:
  assumes "\<forall>s. token (fst (tokenize e s)) \<noteq> PARAM" and "keeps_param_free rec"
    and "expand_one rec e tab st l i def = Some (Inr (tab', l', i'))"
    and "i < length l" and "param_free l"
  shows "param_free l'"
proof -
  from expand_one_result [OF assms(3,4)] obtain args endptr expn
    where 1: "read_args def (drop (i + 1) l) = Inr (args, endptr)"
      and 2: "expand_macro rec e tab st def args = Some (Inr (tab', expn))"
      and 3: "l' = take i l @
          (if length expn \<noteq> 0 then set_leading_whitespace (leading_whitespace (l ! i)) expn
           else expn) @ endptr"
    by blast
  from assms(5) have "param_free (drop (i + 1) l)" by (rule param_free_drop)
  with 1 have a: "param_free (concat args)" and b: "param_free endptr"
    using read_args_param_free by blast+
  from assms(1,2) 2 a have "param_free expn" by (rule expand_macro_param_free)
  with assms(5) b 3 show ?thesis
    by (simp add: param_free_take param_free_set_leading_whitespace)
qed

lemma expand_body_param_free:
  assumes "\<forall>s. token (fst (tokenize e s)) \<noteq> PARAM" and "keeps_param_free rec"
    and "expand_body rec e tab st l i = Some (Inr (tab', l'))" and "param_free l"
  shows "param_free l'"
proof (cases "i < length l")
  case False
  with assms(3,4) show ?thesis by (simp add: expand_body_def)
next
  case True
  note kp = keeps_param_freeD [OF assms(2) _ assms(4)]
  note op = expand_one_param_free [OF assms(1,2) _ True assms(4)]
  from assms(3) True assms(4) show ?thesis
    unfolding expand_body_def
    by (auto split: if_splits sum.splits option.splits prod.splits
        dest: kp op keeps_param_freeD [OF assms(2)])
qed

lemma expand_loop_keeps_param_free:
  assumes "\<forall>s. token (fst (tokenize e s)) \<noteq> PARAM"
  shows "keeps_param_free (expand_loop n e)"
proof (induction n)
  case 0
  then show ?case by (simp add: keeps_param_free_def)
next
  case (Suc n)
  show ?case
    unfolding keeps_param_free_def
  proof (intro allI impI)
    fix tab st l i tab' l'
    assume a: "param_free l \<and> expand_loop (Suc n) e tab st l i = Some (Inr (tab', l'))"
    then have "expand_body (expand_loop n e) e tab st l i = Some (Inr (tab', l'))" by simp
    with assms Suc.IH show "param_free l'"
      using a by (auto intro: expand_body_param_free)
  qed
qed

text \<open>
  C2, as the claim states it: nothing of kind \<^verbatim>\<open>##\<close> or \<^verbatim>\<open>PARAM\<close> is left after
  \<^verbatim>\<open>expand\<close>. With no macro defined, the one-token array \<^verbatim>\<open>##\<close> and the one-token
  array \<^verbatim>\<open>PARAM\<close> come back as they are, and with \<^verbatim>\<open>#define A x ##\<close> the array
  \<^verbatim>\<open>A\<close> comes back as \<^verbatim>\<open>x ##\<close>.
\<close>

theorem paste_and_param_tokens_remain:
  "expand 2 example_env [] [] [basic_token TOKEN_PASTE]
     = Some (Inr ([], [basic_token TOKEN_PASTE])) \<and>
   expand 2 example_env [] [] [param_token 0] = Some (Inr ([], [param_token 0])) \<and>
   expand 6 example_env table_A_paste [] [ident_token ''A'']
     = Some (Inr (table_A_paste, [ident_token ''x'', basic_token TOKEN_PASTE]))"
  by (intro conjI; code_simp)

text \<open>
  C2, amended. If the array holds no \<^verbatim>\<open>PARAM\<close> token (and the tokenizer, which makes the
  result of a paste, never yields one), then no \<^verbatim>\<open>PARAM\<close> token is left in it after
  \<^verbatim>\<open>expand\<close> returns, whatever the macro table holds. Nothing is said about tokens of
  kind \<^verbatim>\<open>##\<close>, nor about an array that holds a \<^verbatim>\<open>PARAM\<close> token.
\<close>

theorem expand_leaves_no_param:
  assumes "\<forall>s. token (fst (tokenize e s)) \<noteq> PARAM"
    and "PARAM \<notin> token ` set list"
    and "expand n e tab expand_stack list = Some (Inr (tab', list'))"
  shows "PARAM \<notin> token ` set list'"
proof -
  from assms(2) have "param_free list" by (simp add: param_free_def)
  with expand_loop_keeps_param_free [OF assms(1)] assms(3) have "param_free list'"
    unfolding expand_def by (auto dest: keeps_param_freeD)
  then show ?thesis by (simp add: param_free_def)
qed

theorem expand_leaves_no_param_witness:
  "PARAM \<notin> token ` set
     [ident_token ''f'', punctuator CHR ''('', ident_token ''a'', punctuator CHR '')''] \<and>
   expand 8 example_env table_f []
     [ident_token ''f'', punctuator CHR ''('', ident_token ''a'', punctuator CHR '')'']
     = Some (Inr (table_f, [ident_token ''a''])) \<and>
   PARAM \<notin> token ` set [ident_token ''a'']"
proof -
  have 1: "\<forall>s. token (fst (tokenize example_env s)) \<noteq> PARAM"
    by (simp add: example_env_def ident_token_def basic_token_def)
  have 2: "PARAM \<notin> token ` set
     [ident_token ''f'', punctuator CHR ''('', ident_token ''a'', punctuator CHR '')'']"
    by (simp add: ident_token_def punctuator_def basic_token_def)
  have 3: "expand 8 example_env table_f []
     [ident_token ''f'', punctuator CHR ''('', ident_token ''a'', punctuator CHR '')'']
     = Some (Inr (table_f, [ident_token ''a'']))"
    by code_simp
  from expand_leaves_no_param [OF 1 2 3] 2 3 show ?thesis by blast
qed

end
